theory Spec2Isabelle
  imports Main "HOL-Library.Multiset"
begin

unbundle bit_operations_syntax

section \<open>EC::Manager: the entity table, component storage and signature dispatch\<close>

text \<open>
  A shallow embedding of \<^verbatim>\<open>src/EC/Manager.hpp\<close>. The manager is a record of its four data
  members and of the vector of stored closures; every member function takes the record and
  returns the updated one. A \<^verbatim>\<open>std::size_t\<close> is a \<^typ>\<open>nat\<close>: no index of the table comes near
  \<open>2 ^ 64\<close> before memory is exhausted, and allocation failure is outside the model.
  \<^verbatim>\<open>std::vector::at\<close> throws \<^verbatim>\<open>std::out_of_range\<close>, which is the value \<open>Inl OutOfRange\<close>.
  \<^verbatim>\<open>operator[]\<close> is unchecked in the source; the class keeps every index it uses that way below
  \<^verbatim>\<open>entities.size()\<close> (see \<open>manager_inv\<close> below, which holds in every reachable state).
\<close>

definition EC_INIT_ENTITIES_SIZE :: nat where
  "EC_INIT_ENTITIES_SIZE = 256"

definition EC_GROW_SIZE_AMOUNT :: nat where
  "EC_GROW_SIZE_AMOUNT = 256"

datatype error = OutOfRange

subsection \<open>Schema and bitset\<close>

text \<open>
  The template parameters \<^verbatim>\<open>ComponentsList\<close> and \<^verbatim>\<open>TagsList\<close> are lists of distinct types. A
  component type is its position in \<^verbatim>\<open>ComponentsList\<close>, a tag type its position in
  \<^verbatim>\<open>TagsList\<close>; a signature is a list of such kinds. The number of component kinds is the
  number of vectors of \<^verbatim>\<open>componentsStorage\<close>.
\<close>

datatype kind = Component nat | Tag nat

type_synonym BitsetType = nat

text \<open>
  Modelled from the spec: \<^verbatim>\<open>Bitset.hpp\<close> is not among the sources. The spec has a fixed-width
  bit vector with one bit per declared kind, components first and then tags, in declaration
  order, with AND, equality, get and set of one bit by kind, and reset-all. The vector is the
  natural number with these bits; \<open>nc\<close> is the number of component kinds.
\<close>

definition componentBitIndex :: "nat \<Rightarrow> nat" where
  "componentBitIndex c = c"

definition tagBitIndex :: "nat \<Rightarrow> nat \<Rightarrow> nat" where
  "tagBitIndex nc t = nc + t"

definition getComponentBit :: "BitsetType \<Rightarrow> nat \<Rightarrow> bool" where
  "getComponentBit b c = bit b (componentBitIndex c)"

definition getTagBit :: "nat \<Rightarrow> BitsetType \<Rightarrow> nat \<Rightarrow> bool" where
  "getTagBit nc b t = bit b (tagBitIndex nc t)"

definition assignBit :: "nat \<Rightarrow> bool \<Rightarrow> BitsetType \<Rightarrow> BitsetType" where
  "assignBit n v b = (if v then set_bit n b else unset_bit n b)"

definition reset :: "BitsetType \<Rightarrow> BitsetType" where
  "reset b = 0"

text \<open>
  Modelled from the spec: \<^verbatim>\<open>generateBitset<Signature>\<close> builds the target bitset of a
  signature, the bits of the component kinds and tag kinds it lists. A component kind that
  is not declared has no bit.
\<close>

fun generateBitset :: "nat \<Rightarrow> kind list \<Rightarrow> BitsetType" where
  "generateBitset nc [] = 0"
| "generateBitset nc (Component c # ks) =
     (if c < nc then set_bit (componentBitIndex c) (generateBitset nc ks)
      else generateBitset nc ks)"
| "generateBitset nc (Tag t # ks) = set_bit (tagBitIndex nc t) (generateBitset nc ks)"

text \<open>
  Modelled from the spec: \<^verbatim>\<open>Meta/Matching.hpp\<close> is not among the sources.
  \<^verbatim>\<open>Matching<Signature, ComponentsList>\<close> keeps the types of the signature that are declared
  components, in the signature's order; tags drop out.
\<close>

fun Matching :: "kind list \<Rightarrow> nat \<Rightarrow> nat list" where
  "Matching [] nc = []"
| "Matching (Component c # ks) nc = (if c < nc then c # Matching ks nc else Matching ks nc)"
| "Matching (Tag t # ks) nc = Matching ks nc"

subsection \<open>The manager's state\<close>

text \<open>\<^verbatim>\<open>EntitiesTupleType = std::tuple<bool, std::size_t, BitsetType>\<close>.\<close>

record Entity =
  alive :: bool
  dataIndex :: nat
  bitset :: BitsetType

text \<open>
  A handler receives the entity's id and references to its components. It is modelled by
  what it does with them: from the id, the values behind the references and the state of
  whatever else it captured, it gives the values it leaves behind the references and the
  new captured state. A stored closure is the tuple of what the lambda of
  \<^verbatim>\<open>addForMatchingFunction\<close> captures besides \<^verbatim>\<open>this\<close>.
\<close>

type_synonym ('v, 's) handler = "nat \<Rightarrow> 'v list \<Rightarrow> 's \<Rightarrow> 'v list \<times> 's"

record ('v, 's) Closure =
  capturedFunction :: "('v, 's) handler"
  signatureBitset :: BitsetType
  helper :: "nat list"

record ('v, 's) Manager =
  entities :: "Entity list"
  componentsStorage :: "'v list list"
  currentCapacity :: nat
  currentSize :: nat
  forMatchingFunctions :: "('v, 's) Closure list"

text \<open>A reference to a component: the vector of its kind and the slot in it.\<close>

type_synonym ref = "nat \<times> nat"

definition deref :: "('v, 's) Manager \<Rightarrow> ref \<Rightarrow> 'v" where
  "deref m r = componentsStorage m ! fst r ! snd r"

definition assign :: "ref \<Rightarrow> 'v \<Rightarrow> 'v list list \<Rightarrow> 'v list list" where
  "assign r v st = st[fst r := (st ! fst r)[snd r := v]]"

subsection \<open>Construction and growth\<close>

text \<open>\<^verbatim>\<open>std::vector::resize\<close>: cut, or fill up with value-initialised elements.\<close>

definition vector_resize :: "'a \<Rightarrow> nat \<Rightarrow> 'a list \<Rightarrow> 'a list" where
  "vector_resize d n xs = take n xs @ replicate (n - length xs) d"

text \<open>
  \<open>dflt c\<close> is the default-constructed value of component kind \<open>c\<close> (every component has a
  default constructor).
\<close>

definition resize :: "(nat \<Rightarrow> 'v) \<Rightarrow> nat \<Rightarrow> ('v, 's) Manager \<Rightarrow> ('v, 's) Manager" where
  "resize dflt newCapacity m =
     (if currentCapacity m \<ge> newCapacity then m
      else m\<lparr>componentsStorage :=
                 map (\<lambda>c. vector_resize (dflt c) newCapacity (componentsStorage m ! c))
                   [0..<length (componentsStorage m)],
               entities :=
                 fold (\<lambda>i es. es[i := \<lparr>alive = False, dataIndex = i, bitset = 0\<rparr>])
                   [currentCapacity m..<newCapacity]
                   (vector_resize \<lparr>alive = False, dataIndex = 0, bitset = 0\<rparr> newCapacity
                      (entities m)),
               currentCapacity := newCapacity\<rparr>)"

text \<open>The constructor, for \<open>nc\<close> component kinds.\<close>

definition Manager :: "nat \<Rightarrow> (nat \<Rightarrow> 'v) \<Rightarrow> ('v, 's) Manager" where
  "Manager nc dflt =
     resize dflt EC_INIT_ENTITIES_SIZE
       \<lparr>entities = [], componentsStorage = replicate nc [], currentCapacity = 0,
        currentSize = 0, forMatchingFunctions = []\<rparr>"

subsection \<open>Entities\<close>

definition addEntity :: "(nat \<Rightarrow> 'v) \<Rightarrow> ('v, 's) Manager \<Rightarrow> nat \<times> ('v, 's) Manager" where
  "addEntity dflt m =
     (let m1 = (if currentSize m = currentCapacity m
                then resize dflt (currentCapacity m + EC_GROW_SIZE_AMOUNT) m else m);
          m2 = m1\<lparr>entities :=
                    (entities m1)[currentSize m1 := (entities m1 ! currentSize m1)\<lparr>alive := True\<rparr>]\<rparr>
      in (currentSize m2, m2\<lparr>currentSize := currentSize m2 + 1\<rparr>))"

definition deleteEntity :: "nat \<Rightarrow> ('v, 's) Manager \<Rightarrow> error + ('v, 's) Manager" where
  "deleteEntity index m =
     (if index < length (entities m)
      then Inr (m\<lparr>entities := (entities m)[index := (entities m ! index)\<lparr>alive := False\<rparr>]\<rparr>)
      else Inl OutOfRange)"

definition hasEntity :: "('v, 's) Manager \<Rightarrow> nat \<Rightarrow> bool" where
  "hasEntity m index = (index < currentSize m)"

definition isAlive :: "('v, 's) Manager \<Rightarrow> nat \<Rightarrow> error + bool" where
  "isAlive m index =
     (if hasEntity m index
      then (if index < length (entities m) then Inr (alive (entities m ! index))
            else Inl OutOfRange)
      else Inr False)"

definition getEntityInfo :: "('v, 's) Manager \<Rightarrow> nat \<Rightarrow> error + Entity" where
  "getEntityInfo m index =
     (if index < length (entities m) then Inr (entities m ! index) else Inl OutOfRange)"

text \<open>\<^verbatim>\<open>getEntityData<Component>\<close> returns a reference; \<open>deref\<close> reads through it.\<close>

definition getEntityData :: "nat \<Rightarrow> ('v, 's) Manager \<Rightarrow> nat \<Rightarrow> error + ref" where
  "getEntityData c m index =
     (if index < length (entities m)
      then (let d = dataIndex (entities m ! index)
            in if d < length (componentsStorage m ! c) then Inr (c, d) else Inl OutOfRange)
      else Inl OutOfRange)"

definition hasComponent :: "nat \<Rightarrow> ('v, 's) Manager \<Rightarrow> nat \<Rightarrow> error + bool" where
  "hasComponent c m index =
     (if index < length (entities m)
      then Inr (getComponentBit (bitset (entities m ! index)) c)
      else Inl OutOfRange)"

definition hasTag :: "nat \<Rightarrow> ('v, 's) Manager \<Rightarrow> nat \<Rightarrow> error + bool" where
  "hasTag t m index =
     (if index < length (entities m)
      then Inr (getTagBit (length (componentsStorage m)) (bitset (entities m ! index)) t)
      else Inl OutOfRange)"

subsection \<open>Garbage collection\<close>

text \<open>
  The inner loop of \<^verbatim>\<open>cleanup\<close>: \<open>rhs\<close> walks down over dead records, resetting their bitsets.
  \<open>None\<close> is the early return at \<open>rhs = 0\<close> (the caller sets \<^verbatim>\<open>currentSize = 0\<close>); the record
  at \<open>0\<close> keeps its bitset on that path.
\<close>

fun skipDead :: "Entity list \<Rightarrow> nat \<Rightarrow> Entity list \<times> nat option" where
  "skipDead es 0 = (if \<not> alive (es ! 0) then (es, None) else (es, Some 0))"
| "skipDead es (Suc r) =
     (if \<not> alive (es ! Suc r)
      then skipDead (es[Suc r := (es ! Suc r)\<lparr>bitset := reset (bitset (es ! Suc r))\<rparr>]) r
      else (es, Some (Suc r)))"

lemma skipDead_le: "skipDead es r = (es', Some r') \<Longrightarrow> r' \<le> r"
  by (induction es r rule: skipDead.induct) (auto split: if_splits)

text \<open>
  The outer loop; the result is the table and the new \<^verbatim>\<open>currentSize\<close>. Both indices stay
  below the \<^verbatim>\<open>currentSize\<close> the call started with, so that the \<^verbatim>\<open>entities.at(rhs)\<close> of the
  swap does not throw on a table with at least \<^verbatim>\<open>currentSize\<close> records.
\<close>

function cleanupLoop :: "Entity list \<Rightarrow> nat \<Rightarrow> nat \<Rightarrow> Entity list \<times> nat" where
  "cleanupLoop es lhs rhs =
     (if lhs < rhs then
        (case skipDead es rhs of
           (es1, None) \<Rightarrow> (es1, 0)
         | (es1, Some rhs1) \<Rightarrow>
             if lhs \<ge> rhs1 then (es1, rhs1 + 1)
             else if \<not> alive (es1 ! lhs) then
               cleanupLoop
                 (es1[lhs := es1 ! rhs1,
                      rhs1 := (es1 ! lhs)\<lparr>bitset := reset (bitset (es1 ! lhs))\<rparr>])
                 (lhs + 1) (rhs1 - 1)
             else cleanupLoop es1 (lhs + 1) rhs1)
      else (es, rhs + 1))"
  by pat_completeness auto
termination
  by (relation "measure (\<lambda>(es, lhs, rhs). rhs - lhs)") (auto dest: skipDead_le [OF sym])

definition cleanup :: "('v, 's) Manager \<Rightarrow> ('v, 's) Manager" where
  "cleanup m =
     (if currentSize m = 0 then m
      else (case cleanupLoop (entities m) 0 (currentSize m - 1) of
              (es, n) \<Rightarrow> m\<lparr>entities := es, currentSize := n\<rparr>))"

subsection \<open>Components and tags\<close>

text \<open>
  \<open>component\<close> is the value the source constructs from the arguments,
  \<^verbatim>\<open>Component component(std::forward<Args>(args)...)\<close>. The guard evaluates \<^verbatim>\<open>isAlive\<close> only when
  \<^verbatim>\<open>hasEntity\<close> holds.
\<close>

definition addComponent ::
  "nat \<Rightarrow> nat \<Rightarrow> 'v \<Rightarrow> ('v, 's) Manager \<Rightarrow> error + ('v, 's) Manager" where
  "addComponent c entityID component m =
     (if \<not> hasEntity m entityID then Inr m
      else (case isAlive m entityID of
              Inl e \<Rightarrow> Inl e
            | Inr a \<Rightarrow>
                if \<not> a then Inr m
                else
                  (let m1 = m\<lparr>entities := (entities m)[entityID := (entities m ! entityID)
                              \<lparr>bitset := assignBit (componentBitIndex c) True
                                 (bitset (entities m ! entityID))\<rparr>]\<rparr>
                   in Inr (m1\<lparr>componentsStorage :=
                                assign (c, dataIndex (entities m1 ! entityID)) component
                                  (componentsStorage m1)\<rparr>))))"

definition removeComponent :: "nat \<Rightarrow> nat \<Rightarrow> ('v, 's) Manager \<Rightarrow> error + ('v, 's) Manager" where
  "removeComponent c entityID m =
     (if \<not> hasEntity m entityID then Inr m
      else (case isAlive m entityID of
              Inl e \<Rightarrow> Inl e
            | Inr a \<Rightarrow>
                if \<not> a then Inr m
                else Inr (m\<lparr>entities := (entities m)[entityID := (entities m ! entityID)
                              \<lparr>bitset := assignBit (componentBitIndex c) False
                                 (bitset (entities m ! entityID))\<rparr>]\<rparr>)))"

definition addTag :: "nat \<Rightarrow> nat \<Rightarrow> ('v, 's) Manager \<Rightarrow> error + ('v, 's) Manager" where
  "addTag t entityID m =
     (if \<not> hasEntity m entityID then Inr m
      else (case isAlive m entityID of
              Inl e \<Rightarrow> Inl e
            | Inr a \<Rightarrow>
                if \<not> a then Inr m
                else Inr (m\<lparr>entities := (entities m)[entityID := (entities m ! entityID)
                              \<lparr>bitset := assignBit (tagBitIndex (length (componentsStorage m)) t) True
                                 (bitset (entities m ! entityID))\<rparr>]\<rparr>)))"

definition removeTag :: "nat \<Rightarrow> nat \<Rightarrow> ('v, 's) Manager \<Rightarrow> error + ('v, 's) Manager" where
  "removeTag t entityID m =
     (if \<not> hasEntity m entityID then Inr m
      else (case isAlive m entityID of
              Inl e \<Rightarrow> Inl e
            | Inr a \<Rightarrow>
                if \<not> a then Inr m
                else Inr (m\<lparr>entities := (entities m)[entityID := (entities m ! entityID)
                              \<lparr>bitset := assignBit (tagBitIndex (length (componentsStorage m)) t) False
                                 (bitset (entities m ! entityID))\<rparr>]\<rparr>)))"

subsection \<open>Dispatch on a signature\<close>

text \<open>
  The pack expansion \<^verbatim>\<open>ctype.template getEntityData<Types>(entityID)...\<close> of
  \<^verbatim>\<open>ForMatchingSignatureHelper::call\<close>: one reference per component type of the helper, and
  the exception of the first \<^verbatim>\<open>at\<close> that fails.
\<close>

fun getEntityDataPack :: "nat list \<Rightarrow> ('v, 's) Manager \<Rightarrow> nat \<Rightarrow> error + ref list" where
  "getEntityDataPack [] m entityID = Inr []"
| "getEntityDataPack (c # cs) m entityID =
     (case getEntityData c m entityID of
        Inl e \<Rightarrow> Inl e
      | Inr r \<Rightarrow>
          (case getEntityDataPack cs m entityID of
             Inl e \<Rightarrow> Inl e
           | Inr rs \<Rightarrow> Inr (r # rs)))"

text \<open>
  The call \<^verbatim>\<open>function(entityID, refs...)\<close>: the handler sees the values behind the references
  and what it leaves there is written back, reference by reference.
\<close>

definition invoke ::
  "('v, 's) handler \<Rightarrow> nat \<Rightarrow> ref list \<Rightarrow> ('v, 's) Manager \<Rightarrow> 's \<Rightarrow> ('v, 's) Manager \<times> 's" where
  "invoke f entityID refs m s =
     (case f entityID (map (deref m) refs) s of
        (vals, s') \<Rightarrow>
          (m\<lparr>componentsStorage :=
               fold (\<lambda>(r, v). assign r v) (zip refs vals) (componentsStorage m)\<rparr>, s'))"

definition call ::
  "nat list \<Rightarrow> nat \<Rightarrow> ('v, 's) Manager \<Rightarrow> ('v, 's) handler \<Rightarrow> 's
     \<Rightarrow> error + ('v, 's) Manager \<times> 's" where
  "call types entityID ctype f s =
     (case getEntityDataPack types ctype entityID of
        Inl e \<Rightarrow> Inl e
      | Inr refs \<Rightarrow> Inr (invoke f entityID refs ctype s))"

definition callInstance ::
  "nat list \<Rightarrow> nat \<Rightarrow> ('v, 's) Manager \<Rightarrow> ('v, 's) handler \<Rightarrow> 's
     \<Rightarrow> error + ('v, 's) Manager \<times> 's" where
  "callInstance types entityID ctype f s = call types entityID ctype f s"

lemma invoke_currentSize: "invoke f i refs m s = (m', s') \<Longrightarrow> currentSize m' = currentSize m"
  by (auto simp: invoke_def split: prod.splits)

lemma call_currentSize: "call types i m f s = Inr (m', s') \<Longrightarrow> currentSize m' = currentSize m"
  by (auto simp: call_def split: sum.splits dest: invoke_currentSize)

text \<open>The \<^verbatim>\<open>for\<close> loop of \<^verbatim>\<open>forMatchingSignature\<close>, from \<open>i\<close> on.\<close>

function forMatchingSignatureLoop ::
  "BitsetType \<Rightarrow> nat list \<Rightarrow> ('v, 's) handler \<Rightarrow> nat \<Rightarrow> ('v, 's) Manager \<Rightarrow> 's
     \<Rightarrow> error + ('v, 's) Manager \<times> 's" where
  "forMatchingSignatureLoop sb types f i m s =
     (if i < currentSize m then
        (if \<not> alive (entities m ! i) then forMatchingSignatureLoop sb types f (i + 1) m s
         else if (sb AND bitset (entities m ! i)) = sb then
           (case call types i m f s of
              Inl e \<Rightarrow> Inl e
            | Inr (m', s') \<Rightarrow> forMatchingSignatureLoop sb types f (i + 1) m' s')
         else forMatchingSignatureLoop sb types f (i + 1) m s)
      else Inr (m, s))"
  by pat_completeness auto
termination
  by (relation "measure (\<lambda>(sb, types, f, i, m, s). currentSize m - i)")
    (auto dest: call_currentSize)

declare forMatchingSignatureLoop.simps [simp del]

definition forMatchingSignature ::
  "kind list \<Rightarrow> ('v, 's) handler \<Rightarrow> ('v, 's) Manager \<Rightarrow> 's \<Rightarrow> error + ('v, 's) Manager \<times> 's" where
  "forMatchingSignature sig f m s =
     forMatchingSignatureLoop (generateBitset (length (componentsStorage m)) sig)
       (Matching sig (length (componentsStorage m))) f 0 m s"

subsection \<open>Stored functions\<close>

definition addForMatchingFunction ::
  "kind list \<Rightarrow> ('v, 's) handler \<Rightarrow> ('v, 's) Manager \<Rightarrow> ('v, 's) Manager" where
  "addForMatchingFunction sig f m =
     m\<lparr>forMatchingFunctions := forMatchingFunctions m @
         [\<lparr>capturedFunction = f,
           signatureBitset = generateBitset (length (componentsStorage m)) sig,
           helper = Matching sig (length (componentsStorage m))\<rparr>]\<rparr>"

text \<open>The body of the stored lambda, from \<open>i\<close> on, on the manager as it is when called.\<close>

function storedLoop ::
  "('v, 's) Closure \<Rightarrow> nat \<Rightarrow> ('v, 's) Manager \<Rightarrow> 's \<Rightarrow> error + ('v, 's) Manager \<times> 's" where
  "storedLoop cl i m s =
     (if i < currentSize m then
        (if \<not> alive (entities m ! i) then storedLoop cl (i + 1) m s
         else if (signatureBitset cl AND bitset (entities m ! i)) = signatureBitset cl then
           (case callInstance (helper cl) i m (capturedFunction cl) s of
              Inl e \<Rightarrow> Inl e
            | Inr (m', s') \<Rightarrow> storedLoop cl (i + 1) m' s')
         else storedLoop cl (i + 1) m s)
      else Inr (m, s))"
  by pat_completeness auto
termination
  by (relation "measure (\<lambda>(cl, i, m, s). currentSize m - i)")
    (auto simp: callInstance_def dest: call_currentSize)

declare storedLoop.simps [simp del]

text \<open>The iteration of \<^verbatim>\<open>callForMatchingFunctions\<close> over the vector of closures.\<close>

fun callEach ::
  "('v, 's) Closure list \<Rightarrow> ('v, 's) Manager \<Rightarrow> 's \<Rightarrow> error + ('v, 's) Manager \<times> 's" where
  "callEach [] m s = Inr (m, s)"
| "callEach (cl # cls) m s =
     (case storedLoop cl 0 m s of
        Inl e \<Rightarrow> Inl e
      | Inr (m', s') \<Rightarrow> callEach cls m' s')"

definition callForMatchingFunctions ::
  "('v, 's) Manager \<Rightarrow> 's \<Rightarrow> error + ('v, 's) Manager \<times> 's" where
  "callForMatchingFunctions m s = callEach (forMatchingFunctions m) m s"

definition clearForMatchingFunctions :: "('v, 's) Manager \<Rightarrow> ('v, 's) Manager" where
  "clearForMatchingFunctions m = m\<lparr>forMatchingFunctions := []\<rparr>"

subsection \<open>Reachable states\<close>

text \<open>
  The calls that change the table. A call that throws leaves the manager as it was: the
  only throwing statement, the \<^verbatim>\<open>at\<close> of \<^verbatim>\<open>deleteEntity\<close> or of \<^verbatim>\<open>isAlive\<close>, comes before any
  write. \<^verbatim>\<open>addComponent<K>\<close> and \<^verbatim>\<open>removeComponent<K>\<close> compile for declared component kinds
  only.
\<close>

datatype 'v operation =
  AddEntity
| DeleteEntity nat
| AddComponent nat nat 'v
| RemoveComponent nat nat
| AddTag nat nat
| RemoveTag nat nat
| Cleanup

definition orElse :: "error + 'a \<Rightarrow> 'a \<Rightarrow> 'a" where
  "orElse r a = (case r of Inl e \<Rightarrow> a | Inr b \<Rightarrow> b)"

fun perform :: "(nat \<Rightarrow> 'v) \<Rightarrow> 'v operation \<Rightarrow> ('v, 's) Manager \<Rightarrow> ('v, 's) Manager" where
  "perform dflt AddEntity m = snd (addEntity dflt m)"
| "perform dflt (DeleteEntity i) m = orElse (deleteEntity i m) m"
| "perform dflt (AddComponent c i v) m =
     (if c < length (componentsStorage m) then orElse (addComponent c i v m) m else m)"
| "perform dflt (RemoveComponent c i) m =
     (if c < length (componentsStorage m) then orElse (removeComponent c i m) m else m)"
| "perform dflt (AddTag t i) m = orElse (addTag t i m) m"
| "perform dflt (RemoveTag t i) m = orElse (removeTag t i m) m"
| "perform dflt Cleanup m = cleanup m"

inductive reachable :: "(nat \<Rightarrow> 'v) \<Rightarrow> ('v, 's) Manager \<Rightarrow> bool" for dflt where
  reachable_init: "reachable dflt (Manager nc dflt)"
| reachable_step: "reachable dflt m \<Longrightarrow> reachable dflt (perform dflt op m)"

definition run :: "(nat \<Rightarrow> 'v) \<Rightarrow> 'v operation list \<Rightarrow> ('v, 's) Manager \<Rightarrow> ('v, 's) Manager" where
  "run dflt ops m = fold (perform dflt) ops m"

text \<open>
  The class invariant: the table and every component vector have \<^verbatim>\<open>currentCapacity\<close>
  elements, the data indices of the table are pairwise distinct and below the capacity, and
  no record at or beyond \<^verbatim>\<open>currentSize\<close> is alive.
\<close>

definition manager_inv :: "('v, 's) Manager \<Rightarrow> bool" where
  "manager_inv m \<longleftrightarrow>
     length (entities m) = currentCapacity m \<and>
     currentSize m \<le> currentCapacity m \<and>
     list_all (\<lambda>v. length v = currentCapacity m) (componentsStorage m) \<and>
     distinct (map dataIndex (entities m)) \<and>
     list_all (\<lambda>e. dataIndex e < currentCapacity m) (entities m) \<and>
     list_all (\<lambda>e. \<not> alive e) (drop (currentSize m) (entities m))"

section \<open>The class invariant\<close>

lemma length_vector_resize: "length (vector_resize d n xs) = n"
  by (simp add: vector_resize_def)

lemma vector_resize_grow: "length xs \<le> n \<Longrightarrow> vector_resize d n xs = xs @ replicate (n - length xs) d"
  by (simp add: vector_resize_def)

lemma length_fold_update: "length (fold (\<lambda>i es. es[i := g i]) is es) = length es"
  by (induction "is" arbitrary: es) simp_all

lemma nth_fold_update:
  "j < length es \<Longrightarrow>
     fold (\<lambda>i es. es[i := g i]) [lo..<hi] es ! j = (if lo \<le> j \<and> j < hi then g j else es ! j)"
proof (induction hi)
  case 0
  then show ?case by simp
next
  case (Suc hi)
  show ?case
  proof (cases "lo \<le> hi")
    case True
    with Suc show ?thesis
      by (cases "j = hi") (auto simp: length_fold_update)
  next
    case False
    then show ?thesis by auto
  qed
qed

lemma resize_entities:
  assumes "length (entities m) = currentCapacity m" "currentCapacity m < n"
  shows "entities (resize dflt n m) =
           entities m @ map (\<lambda>i. \<lparr>alive = False, dataIndex = i, bitset = 0\<rparr>) [currentCapacity m..<n]"
proof (rule nth_equalityI)
  show "length (entities (resize dflt n m)) =
          length (entities m @ map (\<lambda>i. \<lparr>alive = False, dataIndex = i, bitset = 0\<rparr>) [currentCapacity m..<n])"
    using assms by (simp add: resize_def length_fold_update length_vector_resize)
next
  fix j
  assume "j < length (entities (resize dflt n m))"
  then have j: "j < n"
    using assms by (simp add: resize_def length_fold_update length_vector_resize)
  then show "entities (resize dflt n m) ! j =
          (entities m @ map (\<lambda>i. \<lparr>alive = False, dataIndex = i, bitset = 0\<rparr>) [currentCapacity m..<n]) ! j"
    using assms
    by (auto simp: resize_def nth_fold_update length_vector_resize vector_resize_grow nth_append)
qed

lemma manager_inv_resize:
  assumes "manager_inv m"
  shows "manager_inv (resize dflt n m)"
proof (cases "currentCapacity m \<ge> n")
  case True
  with assms show ?thesis by (simp add: resize_def)
next
  case False
  then have lt: "currentCapacity m < n" by simp
  have len: "length (entities m) = currentCapacity m"
    using assms by (simp add: manager_inv_def)
  have es: "entities (resize dflt n m) =
      entities m @ map (\<lambda>i. \<lparr>alive = False, dataIndex = i, bitset = 0\<rparr>) [currentCapacity m..<n]"
    by (rule resize_entities [OF len lt])
  have rest: "componentsStorage (resize dflt n m) =
      map (\<lambda>c. vector_resize (dflt c) n (componentsStorage m ! c)) [0..<length (componentsStorage m)]"
    "currentCapacity (resize dflt n m) = n" "currentSize (resize dflt n m) = currentSize m"
    using lt by (simp_all add: resize_def)
  have di: "map dataIndex (entities (resize dflt n m)) =
      map dataIndex (entities m) @ [currentCapacity m..<n]"
    by (simp add: es comp_def)
  have "distinct (map dataIndex (entities m) @ [currentCapacity m..<n])"
    using assms by (auto simp: manager_inv_def list_all_iff)
  moreover have "list_all (\<lambda>e. dataIndex e < n) (entities (resize dflt n m))"
    using assms lt by (auto simp: es manager_inv_def list_all_iff)
  moreover have "list_all (\<lambda>e. \<not> alive e) (drop (currentSize m) (entities (resize dflt n m)))"
    using assms by (auto simp: es manager_inv_def list_all_iff)
  moreover have "list_all (\<lambda>v. length v = n) (componentsStorage (resize dflt n m))"
    by (simp add: rest list_all_iff length_vector_resize)
  ultimately show ?thesis
    using assms lt by (simp add: manager_inv_def rest di) (simp add: es)
qed

lemma manager_inv_Manager: "manager_inv (Manager nc dflt)"
  unfolding Manager_def
  by (rule manager_inv_resize) (simp add: manager_inv_def list_all_iff)

lemma manager_inv_iff:
  "manager_inv m \<longleftrightarrow>
     length (entities m) = currentCapacity m \<and>
     currentSize m \<le> currentCapacity m \<and>
     (\<forall>c < length (componentsStorage m). length (componentsStorage m ! c) = currentCapacity m) \<and>
     distinct (map dataIndex (entities m)) \<and>
     (\<forall>i < length (entities m). dataIndex (entities m ! i) < currentCapacity m) \<and>
     (\<forall>i. currentSize m \<le> i \<and> i < length (entities m) \<longrightarrow> \<not> alive (entities m ! i))"
proof -
  have "list_all (\<lambda>e. \<not> alive e) (drop (currentSize m) (entities m)) \<longleftrightarrow>
      (\<forall>i. currentSize m \<le> i \<and> i < length (entities m) \<longrightarrow> \<not> alive (entities m ! i))"
  proof
    assume l: "list_all (\<lambda>e. \<not> alive e) (drop (currentSize m) (entities m))"
    show "\<forall>i. currentSize m \<le> i \<and> i < length (entities m) \<longrightarrow> \<not> alive (entities m ! i)"
    proof (intro allI impI)
      fix i
      assume i: "currentSize m \<le> i \<and> i < length (entities m)"
      then have "i - currentSize m < length (drop (currentSize m) (entities m))" by auto
      with l have "\<not> alive (drop (currentSize m) (entities m) ! (i - currentSize m))"
        unfolding list_all_length by blast
      with i show "\<not> alive (entities m ! i)" by simp
    qed
  next
    assume "\<forall>i. currentSize m \<le> i \<and> i < length (entities m) \<longrightarrow> \<not> alive (entities m ! i)"
    then show "list_all (\<lambda>e. \<not> alive e) (drop (currentSize m) (entities m))"
      by (simp add: list_all_length)
  qed
  then show ?thesis
    by (simp add: manager_inv_def list_all_length)
qed

lemma map_update_same:
  assumes "f e = f (es ! i)"
  shows "map f (es[i := e]) = map f es"
proof (cases "i < length es")
  case True
  with assms show ?thesis by (simp add: map_update list_update_same_conv)
next
  case False
  then show ?thesis by (simp add: list_update_beyond)
qed

lemma nth_update_same:
  assumes "f e = f (es ! i)"
  shows "f (es[i := e] ! j) = f (es ! j)"
proof (cases "i < length es")
  case True
  with assms show ?thesis by (cases "i = j") simp_all
next
  case False
  then show ?thesis by (simp add: list_update_beyond)
qed

lemma manager_inv_update_entity:
  assumes "manager_inv m" "dataIndex e = dataIndex (entities m ! i)"
    "i < currentSize m \<or> \<not> alive e"
  shows "manager_inv (m\<lparr>entities := (entities m)[i := e]\<rparr>)"
proof -
  have "map dataIndex ((entities m)[i := e]) = map dataIndex (entities m)"
    by (rule map_update_same) (rule assms(2))
  moreover have "\<forall>j < length (entities m). dataIndex ((entities m)[i := e] ! j) < currentCapacity m"
    using assms(1) by (simp add: manager_inv_iff nth_update_same [of dataIndex, OF assms(2)])
  moreover have "\<forall>j. currentSize m \<le> j \<and> j < length (entities m) \<longrightarrow> \<not> alive ((entities m)[i := e] ! j)"
  proof (intro allI impI)
    fix j
    assume j: "currentSize m \<le> j \<and> j < length (entities m)"
    with assms(1) have d: "\<not> alive (entities m ! j)" by (simp add: manager_inv_iff)
    show "\<not> alive ((entities m)[i := e] ! j)"
    proof (cases "i = j")
      case True
      with j assms(3) show ?thesis by simp
    next
      case False
      with d show ?thesis by simp
    qed
  qed
  ultimately show ?thesis
    using assms(1) by (simp add: manager_inv_iff)
qed

lemma length_assign: "length (assign r v st) = length st"
  by (simp add: assign_def)

lemma length_nth_assign: "length (assign r v st ! c) = length (st ! c)"
  by (cases "fst r < length st") (simp_all add: assign_def nth_list_update list_update_beyond)

lemma manager_inv_storage:
  assumes "manager_inv m" "length st = length (componentsStorage m)"
    "\<forall>c < length st. length (st ! c) = length (componentsStorage m ! c)"
  shows "manager_inv (m\<lparr>componentsStorage := st\<rparr>)"
  using assms by (simp add: manager_inv_iff)

lemma manager_inv_addEntity:
  assumes "manager_inv m"
  shows "manager_inv (snd (addEntity dflt m))"
proof -
  define m1 where "m1 = (if currentSize m = currentCapacity m
                then resize dflt (currentCapacity m + EC_GROW_SIZE_AMOUNT) m else m)"
  have inv1: "manager_inv m1"
    using assms by (simp add: m1_def manager_inv_resize)
  have lt: "currentSize m1 < currentCapacity m1"
    using assms by (auto simp: m1_def resize_def EC_GROW_SIZE_AMOUNT_def manager_inv_iff)
  define e where "e = (entities m1 ! currentSize m1)\<lparr>alive := True\<rparr>"
  have snd: "snd (addEntity dflt m) =
      m1\<lparr>entities := (entities m1)[currentSize m1 := e], currentSize := currentSize m1 + 1\<rparr>"
    by (simp add: addEntity_def Let_def m1_def e_def)
  have "map dataIndex ((entities m1)[currentSize m1 := e]) = map dataIndex (entities m1)"
    by (rule map_update_same) (simp add: e_def)
  moreover have "\<forall>j < length (entities m1).
      dataIndex ((entities m1)[currentSize m1 := e] ! j) < currentCapacity m1"
    using inv1 by (simp add: manager_inv_iff nth_update_same [of dataIndex] e_def)
  ultimately show ?thesis
    using inv1 lt by (simp add: snd manager_inv_iff)
qed

lemma manager_inv_deleteEntity:
  assumes "manager_inv m" "deleteEntity i m = Inr m'"
  shows "manager_inv m'"
proof -
  from assms(2) have "m' = m\<lparr>entities := (entities m)[i := (entities m ! i)\<lparr>alive := False\<rparr>]\<rparr>"
    by (auto simp: deleteEntity_def split: if_splits)
  then show ?thesis
    using manager_inv_update_entity [OF assms(1), of "(entities m ! i)\<lparr>alive := False\<rparr>" i]
    by simp
qed

lemma manager_inv_addComponent:
  assumes "manager_inv m" "addComponent c i v m = Inr m'"
  shows "manager_inv m'"
proof (cases "i < currentSize m \<and> alive (entities m ! i)")
  case False
  with assms show ?thesis
    by (auto simp: addComponent_def hasEntity_def isAlive_def split: if_splits)
next
  case True
  define e where "e = (entities m ! i)\<lparr>bitset := assignBit (componentBitIndex c) True
                                 (bitset (entities m ! i))\<rparr>"
  define m1 where "m1 = m\<lparr>entities := (entities m)[i := e]\<rparr>"
  have len: "i < length (entities m)"
    using True assms(1) by (simp add: manager_inv_iff)
  have m': "m' = m1\<lparr>componentsStorage :=
       assign (c, dataIndex (entities m1 ! i)) v (componentsStorage m1)\<rparr>"
    using assms(2) True len
    by (simp add: addComponent_def hasEntity_def isAlive_def Let_def m1_def e_def)
  have "manager_inv m1"
    unfolding m1_def using True
    by (intro manager_inv_update_entity [OF assms(1)]) (simp_all add: e_def)
  then show ?thesis
    unfolding m'
    by (rule manager_inv_storage) (simp_all add: length_assign length_nth_assign)
qed

lemma manager_inv_bit_mutator:
  assumes "manager_inv m"
  shows "manager_inv (m\<lparr>entities := (entities m)[i := (entities m ! i)\<lparr>bitset := b\<rparr>]\<rparr>)"
proof (cases "i < length (entities m)")
  case True
  show ?thesis
  proof (cases "i < currentSize m")
    case True
    then show ?thesis
      by (intro manager_inv_update_entity [OF assms]) simp_all
  next
    case False
    with \<open>i < length (entities m)\<close> assms have "\<not> alive (entities m ! i)"
      by (simp add: manager_inv_iff)
    then show ?thesis
      by (intro manager_inv_update_entity [OF assms]) simp_all
  qed
next
  case False
  with assms show ?thesis by (simp add: list_update_beyond)
qed

lemma manager_inv_removeComponent:
  "manager_inv m \<Longrightarrow> removeComponent c i m = Inr m' \<Longrightarrow> manager_inv m'"
  by (auto simp: removeComponent_def split: if_splits sum.splits intro: manager_inv_bit_mutator)

lemma manager_inv_addTag:
  "manager_inv m \<Longrightarrow> addTag t i m = Inr m' \<Longrightarrow> manager_inv m'"
  by (auto simp: addTag_def split: if_splits sum.splits intro: manager_inv_bit_mutator)

lemma manager_inv_removeTag:
  "manager_inv m \<Longrightarrow> removeTag t i m = Inr m' \<Longrightarrow> manager_inv m'"
  by (auto simp: removeTag_def split: if_splits sum.splits intro: manager_inv_bit_mutator)

subsection \<open>Garbage collection keeps the invariant\<close>

lemma skipDead_length: "length (fst (skipDead es r)) = length es"
  by (induction es r rule: skipDead.induct) simp_all

lemma skipDead_dataIndex: "map dataIndex (fst (skipDead es r)) = map dataIndex es"
  by (induction es r rule: skipDead.induct) (simp_all add: map_update_same)

lemma skipDead_alive: "map alive (fst (skipDead es r)) = map alive es"
  by (induction es r rule: skipDead.induct) (simp_all add: map_update_same)

lemma skipDead_alive_nth:
  assumes "i < length es"
  shows "alive (fst (skipDead es r) ! i) = alive (es ! i)"
proof -
  have "alive (fst (skipDead es r) ! i) = map alive (fst (skipDead es r)) ! i"
    using assms by (simp add: skipDead_length)
  also have "\<dots> = alive (es ! i)"
    using assms by (simp add: skipDead_alive)
  finally show ?thesis .
qed

lemma skipDead_Some:
  "skipDead es r = (es', Some r') \<Longrightarrow>
     r' \<le> r \<and> alive (es ! r') \<and> (\<forall>i. r' < i \<and> i \<le> r \<longrightarrow> \<not> alive (es ! i))"
proof (induction es r rule: skipDead.induct)
  case (1 es)
  then show ?case by (auto split: if_splits)
next
  case (2 es r)
  show ?case
  proof (cases "alive (es ! Suc r)")
    case True
    with "2.prems" show ?thesis by auto
  next
    case False
    let ?es = "es[Suc r := (es ! Suc r)\<lparr>bitset := reset (bitset (es ! Suc r))\<rparr>]"
    from False "2.prems" have "skipDead ?es r = (es', Some r')" by simp
    with "2.IH" False
    have ih: "r' \<le> r \<and> alive (?es ! r') \<and> (\<forall>i. r' < i \<and> i \<le> r \<longrightarrow> \<not> alive (?es ! i))"
      by blast
    have same: "\<And>i. i \<le> r \<Longrightarrow> ?es ! i = es ! i" by simp
    from ih same have "r' \<le> Suc r" "alive (es ! r')" by auto
    moreover have "\<forall>i. r' < i \<and> i \<le> Suc r \<longrightarrow> \<not> alive (es ! i)"
    proof (intro allI impI)
      fix i assume i: "r' < i \<and> i \<le> Suc r"
      show "\<not> alive (es ! i)"
      proof (cases "i = Suc r")
        case True
        with False show ?thesis by simp
      next
        case False
        with i have "i \<le> r" by simp
        with ih i same show ?thesis by auto
      qed
    qed
    ultimately show ?thesis by simp
  qed
qed

lemma skipDead_None:
  "skipDead es r = (es', None) \<Longrightarrow> \<forall>i \<le> r. \<not> alive (es ! i)"
proof (induction es r rule: skipDead.induct)
  case (1 es)
  then show ?case by (auto split: if_splits)
next
  case (2 es r)
  show ?case
  proof (cases "alive (es ! Suc r)")
    case True
    with "2.prems" show ?thesis by auto
  next
    case False
    let ?es = "es[Suc r := (es ! Suc r)\<lparr>bitset := reset (bitset (es ! Suc r))\<rparr>]"
    from False "2.prems" have "skipDead ?es r = (es', None)" by simp
    with "2.IH" False have ih: "\<forall>i \<le> r. \<not> alive (?es ! i)" by blast
    show ?thesis
    proof (intro allI impI)
      fix i assume i: "i \<le> Suc r"
      show "\<not> alive (es ! i)"
      proof (cases "i = Suc r")
        case True
        with False show ?thesis by simp
      next
        case False
        with i have "i \<le> r" by simp
        with ih show ?thesis by auto
      qed
    qed
  qed
qed

lemma swap_dataIndex:
  assumes "lhs < length es" "rhs < length es"
  shows "mset (map dataIndex
            (es[lhs := es ! rhs, rhs := (es ! lhs)\<lparr>bitset := reset (bitset (es ! lhs))\<rparr>])) =
         mset (map dataIndex es)"
proof -
  have a: "map dataIndex
            (es[lhs := es ! rhs, rhs := (es ! lhs)\<lparr>bitset := reset (bitset (es ! lhs))\<rparr>]) =
        (map dataIndex es)[lhs := map dataIndex es ! rhs, rhs := map dataIndex es ! lhs]"
    using assms by (simp add: map_update)
  have b: "mset ((map dataIndex es)[lhs := map dataIndex es ! rhs, rhs := map dataIndex es ! lhs]) =
        mset (map dataIndex es)"
    by (rule mset_swap) (use assms in simp_all)
  show ?thesis
    unfolding a by (rule b)
qed

lemma cleanupLoop_inv:
  "rhs < length es \<Longrightarrow> (\<forall>i. rhs < i \<and> i < length es \<longrightarrow> \<not> alive (es ! i)) \<Longrightarrow>
   length (fst (cleanupLoop es lhs rhs)) = length es \<and>
   mset (map dataIndex (fst (cleanupLoop es lhs rhs))) = mset (map dataIndex es) \<and>
   snd (cleanupLoop es lhs rhs) \<le> rhs + 1 \<and>
   (\<forall>i. snd (cleanupLoop es lhs rhs) \<le> i \<and> i < length es \<longrightarrow>
        \<not> alive (fst (cleanupLoop es lhs rhs) ! i))"
proof (induction es lhs rhs rule: cleanupLoop.induct)
  case (1 es lhs rhs)
  note rhs_len = "1.prems"(1) and dead = "1.prems"(2)
  show ?case
  proof (cases "lhs < rhs")
    case False
    then have "cleanupLoop es lhs rhs = (es, rhs + 1)" by simp
    with dead show ?thesis by simp
  next
    case True
    obtain es1 r where sd: "skipDead es rhs = (es1, r)"
      by (cases "skipDead es rhs")
    have len1: "length es1 = length es"
      using skipDead_length [of es rhs] sd by simp
    have di1: "map dataIndex es1 = map dataIndex es"
      using skipDead_dataIndex [of es rhs] sd by simp
    have al1: "alive (es1 ! i) = alive (es ! i)" if "i < length es" for i
      using skipDead_alive_nth [OF that, of rhs] sd by simp
    show ?thesis
    proof (cases r)
      case None
      with True sd have res: "cleanupLoop es lhs rhs = (es1, 0)" by simp
      from sd None have "\<forall>i \<le> rhs. \<not> alive (es ! i)"
        using skipDead_None by blast
      with dead have "\<not> alive (es ! i)" if "i < length es" for i
        using that by (cases "i \<le> rhs") auto
      with al1 have "\<forall>i. i < length es \<longrightarrow> \<not> alive (es1 ! i)" by simp
      with res len1 di1 show ?thesis by simp
    next
      case (Some rhs1)
      from sd Some have "skipDead es rhs = (es1, Some rhs1)" by simp
      from skipDead_Some [OF this]
      have r1: "rhs1 \<le> rhs" and dead_mid: "\<forall>i. rhs1 < i \<and> i \<le> rhs \<longrightarrow> \<not> alive (es ! i)"
        by simp_all
      have dead1: "\<not> alive (es1 ! i)" if "rhs1 < i" "i < length es" for i
      proof (cases "i \<le> rhs")
        case True
        with dead_mid that al1 show ?thesis by simp
      next
        case False
        with dead that al1 show ?thesis by simp
      qed
      show ?thesis
      proof (cases "rhs1 \<le> lhs")
        case True
        with \<open>lhs < rhs\<close> sd Some have res: "cleanupLoop es lhs rhs = (es1, rhs1 + 1)" by simp
        with len1 di1 r1 dead1 show ?thesis by simp
      next
        case False
        show ?thesis
        proof (cases "alive (es1 ! lhs)")
          case True
          with \<open>lhs < rhs\<close> sd Some False
          have res: "cleanupLoop es lhs rhs = cleanupLoop es1 (lhs + 1) rhs1" by simp
          have p1: "rhs1 < length es1" using r1 rhs_len len1 by simp
          have p2: "\<forall>i. rhs1 < i \<and> i < length es1 \<longrightarrow> \<not> alive (es1 ! i)"
            using dead1 len1 by simp
          from "1.IH"(2) [OF \<open>lhs < rhs\<close> sd [symmetric] Some False _ p1 p2] True
          have ih: "length (fst (cleanupLoop es1 (lhs + 1) rhs1)) = length es1 \<and>
              mset (map dataIndex (fst (cleanupLoop es1 (lhs + 1) rhs1))) = mset (map dataIndex es1) \<and>
              snd (cleanupLoop es1 (lhs + 1) rhs1) \<le> rhs1 + 1 \<and>
              (\<forall>i. snd (cleanupLoop es1 (lhs + 1) rhs1) \<le> i \<and> i < length es1 \<longrightarrow>
                 \<not> alive (fst (cleanupLoop es1 (lhs + 1) rhs1) ! i))"
            by simp
          with r1 show ?thesis
            unfolding res len1 di1 by simp
        next
          case dead_lhs: False
          define es2 where
            "es2 = es1[lhs := es1 ! rhs1,
                       rhs1 := (es1 ! lhs)\<lparr>bitset := reset (bitset (es1 ! lhs))\<rparr>]"
          from dead_lhs \<open>lhs < rhs\<close> sd Some False
          have res: "cleanupLoop es lhs rhs = cleanupLoop es2 (lhs + 1) (rhs1 - 1)"
            by (simp add: es2_def)
          have len2: "length es2 = length es" by (simp add: es2_def len1)
          have lhs_lt: "lhs < rhs1" using False by simp
          have rhs1_len: "rhs1 < length es1" using r1 rhs_len len1 by simp
          have di2: "mset (map dataIndex es2) = mset (map dataIndex es)"
            unfolding es2_def using swap_dataIndex [of lhs es1 rhs1] lhs_lt rhs1_len di1 by simp
          have p1: "rhs1 - 1 < length es2" using rhs1_len len1 len2 by simp
          have p2: "\<forall>i. rhs1 - 1 < i \<and> i < length es2 \<longrightarrow> \<not> alive (es2 ! i)"
          proof (intro allI impI)
            fix i assume i: "rhs1 - 1 < i \<and> i < length es2"
            show "\<not> alive (es2 ! i)"
            proof (cases "i = rhs1")
              case True
              with dead_lhs rhs1_len show ?thesis by (simp add: es2_def)
            next
              case False
              with i lhs_lt have "rhs1 < i" "i \<noteq> lhs" by auto
              with i dead1 len2 show ?thesis by (simp add: es2_def)
            qed
          qed
          from "1.IH"(1) [OF \<open>lhs < rhs\<close> sd [symmetric] Some False dead_lhs,
              folded es2_def, OF p1 p2]
          have ih: "length (fst (cleanupLoop es2 (lhs + 1) (rhs1 - 1))) = length es2 \<and>
              mset (map dataIndex (fst (cleanupLoop es2 (lhs + 1) (rhs1 - 1)))) =
                mset (map dataIndex es2) \<and>
              snd (cleanupLoop es2 (lhs + 1) (rhs1 - 1)) \<le> rhs1 - 1 + 1 \<and>
              (\<forall>i. snd (cleanupLoop es2 (lhs + 1) (rhs1 - 1)) \<le> i \<and> i < length es2 \<longrightarrow>
                 \<not> alive (fst (cleanupLoop es2 (lhs + 1) (rhs1 - 1)) ! i))"
            by simp
          with r1 lhs_lt show ?thesis
            unfolding res len2 di2 by simp
        qed
      qed
    qed
  qed
qed

lemma manager_inv_cleanup:
  assumes "manager_inv m"
  shows "manager_inv (cleanup m)"
proof (cases "currentSize m = 0")
  case True
  with assms show ?thesis by (simp add: cleanup_def)
next
  case False
  obtain es n where cl: "cleanupLoop (entities m) 0 (currentSize m - 1) = (es, n)"
    by (cases "cleanupLoop (entities m) 0 (currentSize m - 1)")
  have res: "cleanup m = m\<lparr>entities := es, currentSize := n\<rparr>"
    using False cl by (simp add: cleanup_def)
  have p1: "currentSize m - 1 < length (entities m)"
    using assms False by (auto simp: manager_inv_iff)
  have p2: "\<forall>i. currentSize m - 1 < i \<and> i < length (entities m) \<longrightarrow> \<not> alive (entities m ! i)"
    using assms False by (auto simp: manager_inv_iff)
  from cleanupLoop_inv [OF p1 p2, of 0] cl
  have len: "length es = length (entities m)"
    and ms: "mset (map dataIndex es) = mset (map dataIndex (entities m))"
    and n: "n \<le> currentSize m - 1 + 1"
    and dead: "\<forall>i. n \<le> i \<and> i < length (entities m) \<longrightarrow> \<not> alive (es ! i)"
    by simp_all
  have dist: "distinct (map dataIndex es)"
    using mset_eq_imp_distinct_iff [OF ms] assms by (simp add: manager_inv_iff)
  have bound: "\<forall>i < length es. dataIndex (es ! i) < currentCapacity m"
  proof (intro allI impI)
    fix i assume i: "i < length es"
    then have "dataIndex (es ! i) \<in> set (map dataIndex es)" by simp
    also have "set (map dataIndex es) = set (map dataIndex (entities m))"
      by (rule mset_eq_setD [OF ms])
    finally obtain j where "j < length (entities m)" "dataIndex (es ! i) = dataIndex (entities m ! j)"
      by (auto simp: in_set_conv_nth)
    with assms show "dataIndex (es ! i) < currentCapacity m"
      by (simp add: manager_inv_iff)
  qed
  from assms n False have "n \<le> currentCapacity m" by (simp add: manager_inv_iff)
  with assms len dist bound dead show ?thesis
    unfolding res by (simp add: manager_inv_iff)
qed

subsection \<open>Every reachable state satisfies the invariant\<close>

lemma manager_inv_perform:
  assumes "manager_inv m"
  shows "manager_inv (perform dflt op m)"
proof (cases op)
  case AddEntity
  with assms show ?thesis by (simp add: manager_inv_addEntity)
next
  case (DeleteEntity i)
  with assms show ?thesis
    by (auto simp: orElse_def split: sum.splits intro: manager_inv_deleteEntity)
next
  case (AddComponent c i v)
  with assms show ?thesis
    by (auto simp: orElse_def split: sum.splits intro: manager_inv_addComponent)
next
  case (RemoveComponent c i)
  with assms show ?thesis
    by (auto simp: orElse_def split: sum.splits intro: manager_inv_removeComponent)
next
  case (AddTag t i)
  with assms show ?thesis
    by (auto simp: orElse_def split: sum.splits intro: manager_inv_addTag)
next
  case (RemoveTag t i)
  with assms show ?thesis
    by (auto simp: orElse_def split: sum.splits intro: manager_inv_removeTag)
next
  case Cleanup
  with assms show ?thesis by (simp add: manager_inv_cleanup)
qed

lemma reachable_inv: "reachable dflt m \<Longrightarrow> manager_inv m"
  by (induction rule: reachable.induct) (simp_all add: manager_inv_Manager manager_inv_perform)

lemma reachable_run: "reachable dflt m \<Longrightarrow> reachable dflt (run dflt ops m)"
  unfolding run_def
  by (induction ops arbitrary: m) (simp_all add: reachable_step)

subsection \<open>Calls on a manager that satisfies the invariant\<close>

lemma isAlive_inv:
  "manager_inv m \<Longrightarrow> isAlive m i = Inr (i < currentSize m \<and> alive (entities m ! i))"
  by (auto simp: isAlive_def hasEntity_def manager_inv_iff)

lemma mutators_noop:
  assumes "manager_inv m" "isAlive m i \<noteq> Inr True"
  shows "addComponent c i v m = Inr m" "removeComponent c i m = Inr m"
    "addTag t i m = Inr m" "removeTag t i m = Inr m"
  using assms
  by (auto simp: addComponent_def removeComponent_def addTag_def removeTag_def isAlive_inv)

lemma deleteEntity_dead:
  assumes "manager_inv m" "isAlive m i \<noteq> Inr True"
  shows "deleteEntity i m = (if i < currentCapacity m then Inr m else Inl OutOfRange)"
proof (cases "i < currentCapacity m")
  case False
  with assms show ?thesis by (simp add: deleteEntity_def manager_inv_iff)
next
  case True
  with assms have len: "i < length (entities m)" by (simp add: manager_inv_iff)
  have "\<not> alive (entities m ! i)"
  proof (cases "i < currentSize m")
    case True
    with assms show ?thesis by (simp add: isAlive_inv)
  next
    case False
    with assms(1) len show ?thesis by (simp add: manager_inv_iff)
  qed
  then have "(entities m)[i := (entities m ! i)\<lparr>alive := False\<rparr>] = entities m"
    by (simp add: list_update_same_conv len)
  with True len show ?thesis by (simp add: deleteEntity_def)
qed

lemma Manager_fields:
  "currentCapacity (Manager nc dflt) = EC_INIT_ENTITIES_SIZE"
  "currentSize (Manager nc dflt) = 0"
  "length (componentsStorage (Manager nc dflt)) = nc"
  "forMatchingFunctions (Manager nc dflt) = []"
  "length (entities (Manager nc dflt)) = EC_INIT_ENTITIES_SIZE"
  by (simp_all add: Manager_def resize_def EC_INIT_ENTITIES_SIZE_def length_fold_update
      length_vector_resize)


subsection \<open>Dispatch\<close>

lemma Matching_set: "set (Matching sig nc) = {c. Component c \<in> set sig \<and> c < nc}"
  by (induction sig nc rule: Matching.induct) auto

lemma Matching_filter:
  "Matching sig nc = concat (map (\<lambda>k. case k of Component c \<Rightarrow> if c < nc then [c] else [] | Tag t \<Rightarrow> []) sig)"
  by (induction sig nc rule: Matching.induct) auto

lemma bit_generateBitset:
  "bit (generateBitset nc sig) n \<longleftrightarrow>
     (n < nc \<and> Component n \<in> set sig) \<or> (nc \<le> n \<and> Tag (n - nc) \<in> set sig)"
proof (induction nc sig rule: generateBitset.induct)
  case (1 nc)
  then show ?case by simp
next
  case (2 nc c ks)
  then show ?case
    by (auto simp: bit_set_bit_iff componentBitIndex_def)
next
  case (3 nc t ks)
  then show ?case
    by (auto simp: bit_set_bit_iff tagBitIndex_def)
qed

lemma and_eq_iff_subset:
  "(a AND b) = a \<longleftrightarrow> (\<forall>n. bit a n \<longrightarrow> bit b n)" for a b :: nat
  by (auto simp: bit_eq_iff bit_and_iff)

lemma length_fold_assign:
  "length (fold (\<lambda>(r, v). assign r v) rvs st) = length st"
  by (induction rvs arbitrary: st) (auto simp: length_assign)

lemma length_nth_fold_assign:
  "length (fold (\<lambda>(r, v). assign r v) rvs st ! c) = length (st ! c)"
  by (induction rvs arbitrary: st) (auto simp: length_nth_assign)

lemma invoke_frame:
  "entities (fst (invoke f i refs m s)) = entities m"
  "currentSize (fst (invoke f i refs m s)) = currentSize m"
  "currentCapacity (fst (invoke f i refs m s)) = currentCapacity m"
  "forMatchingFunctions (fst (invoke f i refs m s)) = forMatchingFunctions m"
  "length (componentsStorage (fst (invoke f i refs m s))) = length (componentsStorage m)"
  "length (componentsStorage (fst (invoke f i refs m s)) ! c) = length (componentsStorage m ! c)"
  by (simp_all add: invoke_def length_fold_assign length_nth_fold_assign split: prod.splits)

lemma manager_inv_invoke: "manager_inv m \<Longrightarrow> manager_inv (fst (invoke f i refs m s))"
  by (simp add: manager_inv_iff invoke_frame)

lemma getEntityDataPack_inv:
  assumes "manager_inv m" "i < currentCapacity m" "set types \<subseteq> {..<length (componentsStorage m)}"
  shows "getEntityDataPack types m i = Inr (map (\<lambda>c. (c, dataIndex (entities m ! i))) types)"
  using assms(3)
proof (induction types)
  case Nil
  then show ?case by simp
next
  case (Cons c cs)
  then have c: "c < length (componentsStorage m)" by simp
  with assms(1,2) have "getEntityData c m i = Inr (c, dataIndex (entities m ! i))"
    by (simp add: getEntityData_def manager_inv_iff)
  with Cons show ?case by simp
qed

lemma call_inv:
  assumes "manager_inv m" "i < currentSize m" "set types \<subseteq> {..<length (componentsStorage m)}"
  shows "call types i m f s =
           Inr (invoke f i (map (\<lambda>c. (c, dataIndex (entities m ! i))) types) m s)"
proof -
  from assms(1,2) have "i < currentCapacity m" by (simp add: manager_inv_iff)
  from getEntityDataPack_inv [OF assms(1) this assms(3)] show ?thesis
    by (simp add: call_def)
qed

lemma forMatchingSignatureLoop_inv:
  "manager_inv m \<Longrightarrow> set types \<subseteq> {..<length (componentsStorage m)} \<Longrightarrow>
   forMatchingSignatureLoop sb types f i m s =
     Inr (fold (\<lambda>j (m', s'). invoke f j (map (\<lambda>c. (c, dataIndex (entities m ! j))) types) m' s')
            (filter (\<lambda>j. alive (entities m ! j) \<and> (sb AND bitset (entities m ! j)) = sb)
               [i..<currentSize m])
            (m, s))"
proof (induction sb types f i m s rule: forMatchingSignatureLoop.induct)
  case (1 sb types f i m s)
  note inv = "1.prems"(1) and ty = "1.prems"(2)
  show ?case
  proof (cases "i < currentSize m")
    case False
    then show ?thesis by (subst forMatchingSignatureLoop.simps) simp
  next
    case True
    then have upt: "[i..<currentSize m] = i # [i + 1..<currentSize m]"
      by (simp add: upt_conv_Cons)
    show ?thesis
    proof (cases "alive (entities m ! i) \<and> (sb AND bitset (entities m ! i)) = sb")
      case False
      then consider "\<not> alive (entities m ! i)"
        | "alive (entities m ! i)" "(sb AND bitset (entities m ! i)) \<noteq> sb"
        by blast
      then show ?thesis
      proof cases
        case 1
        from "1.IH"(1) [OF True 1 inv ty] True 1 show ?thesis
          by (subst forMatchingSignatureLoop.simps) (simp add: upt)
      next
        case 2
        from "1.IH"(3) [OF True _ 2(2) inv ty] True 2 show ?thesis
          by (subst forMatchingSignatureLoop.simps) (simp add: upt)
      qed
    next
      case match: True
      let ?refs = "map (\<lambda>c. (c, dataIndex (entities m ! i))) types"
      obtain m' s' where iv: "invoke f i ?refs m s = (m', s')"
        by (cases "invoke f i ?refs m s")
      have cl: "call types i m f s = Inr (m', s')"
        using call_inv [OF inv True ty, of f s] iv by simp
      have fr: "entities m' = entities m" "currentSize m' = currentSize m"
        "length (componentsStorage m') = length (componentsStorage m)"
        using invoke_frame [of f i ?refs m s] iv by simp_all
      have inv': "manager_inv m'"
        using manager_inv_invoke [OF inv, of f i ?refs s] iv by simp
      have ty': "set types \<subseteq> {..<length (componentsStorage m')}"
        using ty fr by simp
      from "1.IH"(2) [OF True _ _ cl refl inv' ty'] match
      have "forMatchingSignatureLoop sb types f (i + 1) m' s' =
          Inr (fold (\<lambda>j (m', s'). invoke f j (map (\<lambda>c. (c, dataIndex (entities m ! j))) types) m' s')
            (filter (\<lambda>j. alive (entities m ! j) \<and> (sb AND bitset (entities m ! j)) = sb)
               [i + 1..<currentSize m])
            (m', s'))"
        by (simp add: fr)
      with True match cl iv show ?thesis
        by (subst forMatchingSignatureLoop.simps) (simp add: upt)
    qed
  qed
qed

lemma generateBitset_superset:
  "(generateBitset nc sig AND b) = generateBitset nc sig \<longleftrightarrow>
     list_all (\<lambda>k. case k of Component c \<Rightarrow> c < nc \<longrightarrow> getComponentBit b c
                      | Tag t \<Rightarrow> getTagBit nc b t) sig"
proof -
  note bits = getComponentBit_def getTagBit_def componentBitIndex_def tagBitIndex_def
  have "(\<forall>n. bit (generateBitset nc sig) n \<longrightarrow> bit b n) \<longleftrightarrow>
      (\<forall>k \<in> set sig. case k of Component c \<Rightarrow> c < nc \<longrightarrow> getComponentBit b c | Tag t \<Rightarrow> getTagBit nc b t)"
  proof
    assume l: "\<forall>n. bit (generateBitset nc sig) n \<longrightarrow> bit b n"
    show "\<forall>k \<in> set sig. case k of Component c \<Rightarrow> c < nc \<longrightarrow> getComponentBit b c | Tag t \<Rightarrow> getTagBit nc b t"
    proof
      fix k assume k: "k \<in> set sig"
      show "case k of Component c \<Rightarrow> c < nc \<longrightarrow> getComponentBit b c | Tag t \<Rightarrow> getTagBit nc b t"
      proof (cases k)
        case (Component c)
        with k l [rule_format, of c] show ?thesis by (simp add: bit_generateBitset bits)
      next
        case (Tag t)
        with k l [rule_format, of "nc + t"] show ?thesis by (simp add: bit_generateBitset bits)
      qed
    qed
  next
    assume r: "\<forall>k \<in> set sig. case k of Component c \<Rightarrow> c < nc \<longrightarrow> getComponentBit b c | Tag t \<Rightarrow> getTagBit nc b t"
    show "\<forall>n. bit (generateBitset nc sig) n \<longrightarrow> bit b n"
    proof (intro allI impI)
      fix n assume "bit (generateBitset nc sig) n"
      then consider "n < nc" "Component n \<in> set sig" | "nc \<le> n" "Tag (n - nc) \<in> set sig"
        by (auto simp: bit_generateBitset)
      then show "bit b n"
      proof cases
        case 1
        with r [rule_format, of "Component n"] show ?thesis by (simp add: bits)
      next
        case 2
        with r [rule_format, of "Tag (n - nc)"] show ?thesis by (simp add: bits)
      qed
    qed
  qed
  then show ?thesis
    by (simp add: and_eq_iff_subset list_all_iff)
qed

subsection \<open>An example table\<close>

text \<open>
  Four entities with one component kind and one tag: entity 0 has the component (5), entity
  1 has it (6) and is marked as deleted, entity 2 has the component (9) and the tag, entity 3
  has the tag only. \<open>logging\<close> is a handler that leaves the components as they are and
  records its arguments.
\<close>

definition example_table :: "(nat, (nat \<times> nat list) list) Manager" where
  "example_table =
     run (\<lambda>_. 0)
       [AddEntity, AddEntity, AddEntity, AddEntity, AddComponent 0 0 5, AddComponent 0 1 6,
        AddComponent 0 2 9, AddTag 0 2, AddTag 0 3, DeleteEntity 1]
       (Manager 1 (\<lambda>_. 0))"

definition logging :: "(nat, (nat \<times> nat list) list) handler" where
  "logging i vals log = (vals, log @ [(i, vals)])"

lemma manager_inv_example_table: "manager_inv example_table"
  unfolding example_table_def
  by (rule reachable_inv [OF reachable_run [OF reachable_init]])

subsection \<open>Stored functions are direct calls\<close>

text \<open>
  The words of the spec for what \<^verbatim>\<open>callForMatchingFunctions\<close> has to amount to: one direct
  \<^verbatim>\<open>forMatchingSignature\<close> per registration, in the order of registration, each on the manager
  as the one before left it.
\<close>

fun forMatchingSignatureEach ::
  "(kind list \<times> ('v, 's) handler) list \<Rightarrow> ('v, 's) Manager \<Rightarrow> 's
     \<Rightarrow> error + ('v, 's) Manager \<times> 's" where
  "forMatchingSignatureEach [] m s = Inr (m, s)"
| "forMatchingSignatureEach ((sig, f) # regs) m s =
     (case forMatchingSignature sig f m s of
        Inl e \<Rightarrow> Inl e
      | Inr (m', s') \<Rightarrow> forMatchingSignatureEach regs m' s')"

definition addForMatchingFunctions ::
  "(kind list \<times> ('v, 's) handler) list \<Rightarrow> ('v, 's) Manager \<Rightarrow> ('v, 's) Manager" where
  "addForMatchingFunctions regs m = fold (\<lambda>(sig, f). addForMatchingFunction sig f) regs m"

lemma storedLoop_eq:
  "storedLoop cl i m s =
     forMatchingSignatureLoop (signatureBitset cl) (helper cl) (capturedFunction cl) i m s"
proof (induction cl i m s rule: storedLoop.induct)
  case (1 cl i m s)
  show ?case
  proof (cases "i < currentSize m")
    case False
    then show ?thesis
      by (subst storedLoop.simps, subst forMatchingSignatureLoop.simps) simp
  next
    case True
    show ?thesis
    proof (cases "alive (entities m ! i)")
      case False
      with True "1.IH"(1) show ?thesis
        by (subst storedLoop.simps, subst forMatchingSignatureLoop.simps) simp
    next
      case alive: True
      show ?thesis
      proof (cases "(signatureBitset cl AND bitset (entities m ! i)) = signatureBitset cl")
        case False
        with True alive "1.IH"(3) show ?thesis
          by (subst storedLoop.simps, subst forMatchingSignatureLoop.simps) simp
      next
        case match: True
        show ?thesis
        proof (cases "call (helper cl) i m (capturedFunction cl) s")
          case (Inl e)
          with True alive match show ?thesis
            by (subst storedLoop.simps, subst forMatchingSignatureLoop.simps)
              (simp add: callInstance_def)
        next
          case (Inr b)
          obtain m' s' where b: "b = (m', s')" by (cases b)
          from "1.IH"(2) [OF True _ match _ b [symmetric]] alive Inr
          have "storedLoop cl (i + 1) m' s' =
              forMatchingSignatureLoop (signatureBitset cl) (helper cl) (capturedFunction cl)
                (i + 1) m' s'"
            by (simp add: callInstance_def)
          with True alive match Inr b show ?thesis
            by (subst storedLoop.simps, subst forMatchingSignatureLoop.simps)
              (simp add: callInstance_def)
        qed
      qed
    qed
  qed
qed

lemma forMatchingSignatureLoop_frame:
  "forMatchingSignatureLoop sb types f i m s = Inr (m', s') \<Longrightarrow>
     length (componentsStorage m') = length (componentsStorage m) \<and>
     forMatchingFunctions m' = forMatchingFunctions m"
proof (induction sb types f i m s rule: forMatchingSignatureLoop.induct)
  case (1 sb types f i m s)
  note unfold = forMatchingSignatureLoop.simps [of sb types f i m s]
  show ?case
  proof (cases "i < currentSize m")
    case False
    with "1.prems" unfold show ?thesis by simp
  next
    case True
    show ?thesis
    proof (cases "alive (entities m ! i) \<and> (sb AND bitset (entities m ! i)) = sb")
      case False
      then consider "\<not> alive (entities m ! i)"
        | "alive (entities m ! i)" "(sb AND bitset (entities m ! i)) \<noteq> sb"
        by blast
      then show ?thesis
      proof cases
        case 1
        with True "1.prems" unfold
        have "forMatchingSignatureLoop sb types f (i + 1) m s = Inr (m', s')"
          by simp
        from "1.IH"(1) [OF True 1 this] show ?thesis .
      next
        case 2
        with True "1.prems" unfold
        have "forMatchingSignatureLoop sb types f (i + 1) m s = Inr (m', s')"
          by simp
        from "1.IH"(3) [OF True _ 2(2) this] 2(1) show ?thesis by simp
      qed
    next
      case match: True
      with True "1.prems" unfold
      have "(case call types i m f s of Inl e \<Rightarrow> Inl e
             | Inr (m1, s1) \<Rightarrow> forMatchingSignatureLoop sb types f (i + 1) m1 s1) = Inr (m', s')"
        by simp
      then obtain m1 s1 where
        cl: "call types i m f s = Inr (m1, s1)" and
        rest: "forMatchingSignatureLoop sb types f (i + 1) m1 s1 = Inr (m', s')"
        by (auto split: sum.splits)
      from cl obtain refs where "invoke f i refs m s = (m1, s1)"
        by (auto simp: call_def split: sum.splits)
      with invoke_frame [of f i refs m s]
      have "length (componentsStorage m1) = length (componentsStorage m)"
        "forMatchingFunctions m1 = forMatchingFunctions m"
        by simp_all
      with "1.IH"(2) [OF True _ _ cl refl rest] match show ?thesis by simp
    qed
  qed
qed

lemma forMatchingFunctions_add:
  "forMatchingFunctions (addForMatchingFunctions regs m) =
     forMatchingFunctions m @
       map (\<lambda>(sig, f). \<lparr>capturedFunction = f,
              signatureBitset = generateBitset (length (componentsStorage m)) sig,
              helper = Matching sig (length (componentsStorage m))\<rparr>) regs \<and>
   componentsStorage (addForMatchingFunctions regs m) = componentsStorage m"
  unfolding addForMatchingFunctions_def
  by (induction regs arbitrary: m) (auto simp: addForMatchingFunction_def)

lemma callEach_eq:
  "length (componentsStorage m) = nc \<Longrightarrow>
   callEach (map (\<lambda>(sig, f). \<lparr>capturedFunction = f, signatureBitset = generateBitset nc sig,
                    helper = Matching sig nc\<rparr>) regs) m s =
     forMatchingSignatureEach regs m s"
proof (induction regs arbitrary: m s)
  case Nil
  then show ?case by simp
next
  case (Cons r regs)
  obtain sig f where r: "r = (sig, f)" by (cases r)
  show ?case
  proof (cases "forMatchingSignature sig f m s")
    case (Inl e)
    with Cons.prems r show ?thesis
      by (simp add: storedLoop_eq forMatchingSignature_def)
  next
    case (Inr b)
    obtain m' s' where b: "b = (m', s')" by (cases b)
    from Inr b have "length (componentsStorage m') = nc"
      using forMatchingSignatureLoop_frame [of _ _ f 0 m s m' s'] Cons.prems
      by (simp add: forMatchingSignature_def)
    from Cons.IH [OF this] Inr b Cons.prems r show ?thesis
      by (simp add: storedLoop_eq forMatchingSignature_def)
  qed
qed

text \<open>A handler that adds one to each component it is given, and records its arguments.\<close>

definition bumping :: "(nat, (nat \<times> nat list) list) handler" where
  "bumping i vals log = (map Suc vals, log @ [(i, vals)])"

subsection \<open>Stored functions and dispatch keep the invariant and the registry\<close>

lemma manager_inv_addForMatchingFunction:
  "manager_inv m \<Longrightarrow> manager_inv (addForMatchingFunction sig f m)"
  by (simp add: manager_inv_def addForMatchingFunction_def)

lemma manager_inv_clearForMatchingFunctions:
  "manager_inv m \<Longrightarrow> manager_inv (clearForMatchingFunctions m)"
  by (simp add: manager_inv_def clearForMatchingFunctions_def)

lemma manager_inv_forMatchingSignatureLoop:
  "forMatchingSignatureLoop sb types f i m s = Inr (m', s') \<Longrightarrow> manager_inv m \<Longrightarrow>
     manager_inv m'"
proof (induction sb types f i m s rule: forMatchingSignatureLoop.induct)
  case (1 sb types f i m s)
  note unfold = forMatchingSignatureLoop.simps [of sb types f i m s]
  note res = "1.prems"(1) and inv = "1.prems"(2)
  show ?case
  proof (cases "i < currentSize m")
    case False
    with res inv unfold show ?thesis by simp
  next
    case True
    show ?thesis
    proof (cases "alive (entities m ! i) \<and> (sb AND bitset (entities m ! i)) = sb")
      case False
      then consider "\<not> alive (entities m ! i)"
        | "alive (entities m ! i)" "(sb AND bitset (entities m ! i)) \<noteq> sb"
        by blast
      then show ?thesis
      proof cases
        case 1
        with True res unfold
        have "forMatchingSignatureLoop sb types f (i + 1) m s = Inr (m', s')"
          by simp
        from "1.IH"(1) [OF True 1 this inv] show ?thesis .
      next
        case 2
        with True res unfold
        have "forMatchingSignatureLoop sb types f (i + 1) m s = Inr (m', s')"
          by simp
        from "1.IH"(3) [OF True _ 2(2) this inv] 2(1) show ?thesis by simp
      qed
    next
      case match: True
      with True res unfold
      have "(case call types i m f s of Inl e \<Rightarrow> Inl e
             | Inr (m1, s1) \<Rightarrow> forMatchingSignatureLoop sb types f (i + 1) m1 s1) = Inr (m', s')"
        by simp
      then obtain m1 s1 where
        cl: "call types i m f s = Inr (m1, s1)" and
        rest: "forMatchingSignatureLoop sb types f (i + 1) m1 s1 = Inr (m', s')"
        by (auto split: sum.splits)
      from cl obtain refs where "invoke f i refs m s = (m1, s1)"
        by (auto simp: call_def split: sum.splits)
      with manager_inv_invoke [OF inv, of f i refs s] have "manager_inv m1" by simp
      with "1.IH"(2) [OF True _ _ cl refl rest] match show ?thesis by simp
    qed
  qed
qed

lemma manager_inv_forMatchingSignature:
  "forMatchingSignature sig f m s = Inr (m', s') \<Longrightarrow> manager_inv m \<Longrightarrow> manager_inv m'"
  unfolding forMatchingSignature_def by (rule manager_inv_forMatchingSignatureLoop)

lemma callEach_frame:
  "callEach cls m s = Inr (m', s') \<Longrightarrow>
     length (componentsStorage m') = length (componentsStorage m) \<and>
     forMatchingFunctions m' = forMatchingFunctions m \<and>
     (manager_inv m \<longrightarrow> manager_inv m')"
proof (induction cls arbitrary: m s)
  case Nil
  then show ?case by simp
next
  case (Cons cl cls)
  from Cons.prems obtain m1 s1 where
    one: "storedLoop cl 0 m s = Inr (m1, s1)" and rest: "callEach cls m1 s1 = Inr (m', s')"
    by (auto split: sum.splits)
  from one have l: "forMatchingSignatureLoop (signatureBitset cl) (helper cl) (capturedFunction cl)
      0 m s = Inr (m1, s1)"
    by (simp add: storedLoop_eq)
  from forMatchingSignatureLoop_frame [OF l] manager_inv_forMatchingSignatureLoop [OF l]
    Cons.IH [OF rest]
  show ?case by auto
qed

lemma manager_inv_callForMatchingFunctions:
  "callForMatchingFunctions m s = Inr (m', s') \<Longrightarrow> manager_inv m \<Longrightarrow> manager_inv m'"
  unfolding callForMatchingFunctions_def by (auto dest: callEach_frame)

subsection \<open>Table operations leave the stored closures and the component kinds alone\<close>

lemma resize_frame:
  "forMatchingFunctions (resize dflt n m) = forMatchingFunctions m"
  "length (componentsStorage (resize dflt n m)) = length (componentsStorage m)"
  "currentSize (resize dflt n m) = currentSize m"
  by (simp_all add: resize_def)

lemma cleanup_frame:
  "forMatchingFunctions (cleanup m) = forMatchingFunctions m"
  "componentsStorage (cleanup m) = componentsStorage m"
  "currentCapacity (cleanup m) = currentCapacity m"
  by (simp_all add: cleanup_def split: prod.splits)

lemma perform_frame:
  "forMatchingFunctions (perform dflt op m) = forMatchingFunctions m \<and>
   length (componentsStorage (perform dflt op m)) = length (componentsStorage m)"
proof (cases op)
  case AddEntity
  then show ?thesis by (simp add: addEntity_def Let_def resize_frame)
next
  case (DeleteEntity i)
  then show ?thesis by (simp add: orElse_def deleteEntity_def)
next
  case (AddComponent c i v)
  then show ?thesis
    by (auto simp: orElse_def addComponent_def Let_def length_assign split: sum.splits)
next
  case (RemoveComponent c i)
  then show ?thesis
    by (auto simp: orElse_def removeComponent_def split: sum.splits)
next
  case (AddTag t i)
  then show ?thesis
    by (auto simp: orElse_def addTag_def split: sum.splits)
next
  case (RemoveTag t i)
  then show ?thesis
    by (auto simp: orElse_def removeTag_def split: sum.splits)
next
  case Cleanup
  then show ?thesis by (simp add: cleanup_frame)
qed

lemma run_frame:
  "forMatchingFunctions (run dflt ops m) = forMatchingFunctions m \<and>
   length (componentsStorage (run dflt ops m)) = length (componentsStorage m)"
  unfolding run_def
  by (induction ops arbitrary: m) (simp_all add: perform_frame)

lemma manager_inv_run: "manager_inv m \<Longrightarrow> manager_inv (run dflt ops m)"
  unfolding run_def
  by (induction ops arbitrary: m) (simp_all add: manager_inv_perform)

subsection \<open>What \<^verbatim>\<open>addEntity\<close> leaves as it was\<close>



subsection \<open>Example tables with a stored closure, and a full table\<close>

definition example_registered :: "(nat, (nat \<times> nat list) list) Manager" where
  "example_registered = addForMatchingFunction [Component 0] logging example_table"

lemma manager_inv_example_registered: "manager_inv example_registered"
  unfolding example_registered_def
  by (rule manager_inv_addForMatchingFunction [OF manager_inv_example_table])

lemma example_registered_closures: "forMatchingFunctions example_registered \<noteq> []"
  by (simp add: example_registered_def addForMatchingFunction_def)




text \<open>
  Two closures stored on a fresh manager, and the manager after a later \<^verbatim>\<open>addEntity\<close> and
  \<^verbatim>\<open>addComponent\<close>.
\<close>

definition example_registry :: "(nat, (nat \<times> nat list) list) Manager" where
  "example_registry =
     addForMatchingFunctions [([Component 0], bumping), ([Component 0], logging)]
       (clearForMatchingFunctions (Manager 1 (\<lambda>_. 0)))"

definition example_later :: "(nat, (nat \<times> nat list) list) Manager" where
  "example_later = run (\<lambda>_. 0) [AddEntity, AddComponent 0 0 4] example_registry"

lemma run_Nil: "run dflt [] m = m"
  by (simp add: run_def)

lemma nth_forMatchingFunctions_add:
  assumes "k < length regs"
  shows "forMatchingFunctions (addForMatchingFunctions regs (clearForMatchingFunctions m)) ! k =
           \<lparr>capturedFunction = snd (regs ! k),
            signatureBitset = generateBitset (length (componentsStorage m)) (fst (regs ! k)),
            helper = Matching (fst (regs ! k)) (length (componentsStorage m))\<rparr>"
proof -
  have "forMatchingFunctions (addForMatchingFunctions regs (clearForMatchingFunctions m)) =
      map (\<lambda>(sig, f). \<lparr>capturedFunction = f,
              signatureBitset = generateBitset (length (componentsStorage m)) sig,
              helper = Matching sig (length (componentsStorage m))\<rparr>) regs"
    by (simp add: forMatchingFunctions_add) (simp add: clearForMatchingFunctions_def)
  with assms show ?thesis by (simp add: case_prod_beta)
qed

lemma callForMatchingFunctions_registered:
  assumes "length (componentsStorage m') = length (componentsStorage m)"
    "forMatchingFunctions m' =
       forMatchingFunctions (addForMatchingFunctions regs (clearForMatchingFunctions m))"
  shows "callForMatchingFunctions m' s = forMatchingSignatureEach regs m' s"
proof -
  have "forMatchingFunctions m' =
      map (\<lambda>(sig, f). \<lparr>capturedFunction = f,
              signatureBitset = generateBitset (length (componentsStorage m)) sig,
              helper = Matching sig (length (componentsStorage m))\<rparr>) regs"
    unfolding assms(2)
    by (simp add: forMatchingFunctions_add) (simp add: clearForMatchingFunctions_def)
  then show ?thesis
    unfolding callForMatchingFunctions_def
    by (simp only: callEach_eq [OF assms(1)])
qed

section \<open>The claims\<close>

text \<open>
  C1. After \<^verbatim>\<open>cleanup\<close> the records below \<^verbatim>\<open>currentSize\<close> should be exactly the entities that
  were alive before the call. The code misses one: on a fresh manager, after three
  \<^verbatim>\<open>addEntity\<close> and the deletion of entities 0 and 1, one entity is alive; \<^verbatim>\<open>cleanup\<close> swaps
  records 0 and 2, steps to \<open>lhs = rhs = 1\<close> and leaves the loop without looking at record 1,
  so that \<^verbatim>\<open>currentSize\<close> is 2 and the dead record 1 stays below it.
\<close>

theorem cleanup_keeps_dead_record:
  "(let m = run (\<lambda>_. 0 :: nat)
              [AddEntity, AddEntity, AddEntity, DeleteEntity 0, DeleteEntity 1]
              (Manager 1 (\<lambda>_. 0) :: (nat, unit) Manager)
    in length (filter alive (take (currentSize m) (entities m))) = 1 \<and>
       currentSize (cleanup m) = 2 \<and>
       \<not> alive (entities (cleanup m) ! 1))"
  by code_simp

text \<open>
  C2. On a manager that satisfies the class invariant, \<^verbatim>\<open>forMatchingSignature\<close> returns
  normally, and what it does is to call the handler once for each id below \<^verbatim>\<open>currentSize\<close>,
  in increasing order, whose record is alive and whose bitset ANDed with the bitset of the
  signature is the bitset of the signature; the arguments of the call are the id and, for
  the declared component kinds of the signature in the order of the signature (tags are left
  out), the reference into the vector of that kind at the data index of the entity's record.
  The test on the bitsets holds exactly when the record has the bit of every declared kind
  of the signature.
\<close>

theorem forMatchingSignature_dispatch:
  assumes "manager_inv m"
  shows "forMatchingSignature sig f m s =
           Inr (fold (\<lambda>i (m', s').
                        invoke f i
                          (map (\<lambda>c. (c, dataIndex (entities m ! i)))
                             (Matching sig (length (componentsStorage m)))) m' s')
                  (filter (\<lambda>i. alive (entities m ! i) \<and>
                                (generateBitset (length (componentsStorage m)) sig AND
                                   bitset (entities m ! i)) =
                                generateBitset (length (componentsStorage m)) sig)
                     [0..<currentSize m])
                  (m, s)) \<and>
         ((generateBitset (length (componentsStorage m)) sig AND b) =
            generateBitset (length (componentsStorage m)) sig \<longleftrightarrow>
          list_all (\<lambda>k. case k of
                       Component c \<Rightarrow> c < length (componentsStorage m) \<longrightarrow> getComponentBit b c
                     | Tag t \<Rightarrow> getTagBit (length (componentsStorage m)) b t) sig)"
proof -
  have "set (Matching sig (length (componentsStorage m))) \<subseteq> {..<length (componentsStorage m)}"
    by (auto simp: Matching_set)
  from forMatchingSignatureLoop_inv [OF assms this] show ?thesis
    by (simp add: forMatchingSignature_def generateBitset_superset)
qed

theorem forMatchingSignature_dispatch_witness:
  "manager_inv example_table \<and>
   (\<exists>m'. forMatchingSignature [Component 0] logging example_table [] =
            Inr (m', [(0, [5]), (2, [9])])) \<and>
   (\<exists>m'. forMatchingSignature [Tag 0, Component 0] logging example_table [] =
            Inr (m', [(2, [9])])) \<and>
   (\<exists>m'. forMatchingSignature [Tag 0] logging example_table [] =
            Inr (m', [(2, []), (3, [])])) \<and>
   (\<exists>m'. forMatchingSignature [] logging example_table [] =
            Inr (m', [(0, []), (2, []), (3, [])]))"
proof -
  note inv = manager_inv_example_table
  have ret: "\<exists>R. forMatchingSignature sig logging example_table [] = Inr R" for sig
    using forMatchingSignature_dispatch [OF inv, of sig logging "[]"] by blast
  have log: "\<exists>m'. forMatchingSignature sig logging example_table [] = Inr (m', l)"
    if "map_sum id snd (forMatchingSignature sig logging example_table []) = Inr l" for sig l
  proof -
    from ret [of sig] obtain R where R: "forMatchingSignature sig logging example_table [] = Inr R"
      by blast
    with that have "snd R = l" by simp
    with R have "forMatchingSignature sig logging example_table [] = Inr (fst R, l)"
      by (cases R) simp
    then show ?thesis by blast
  qed
  have "map_sum id snd (forMatchingSignature [Component 0] logging example_table []) =
      Inr [(0, [5]), (2, [9])]"
    by code_simp
  moreover
  have "map_sum id snd (forMatchingSignature [Tag 0, Component 0] logging example_table []) =
      Inr [(2, [9])]"
    by code_simp
  moreover
  have "map_sum id snd (forMatchingSignature [Tag 0] logging example_table []) =
      Inr [(2, []), (3, [])]"
    by code_simp
  moreover
  have "map_sum id snd (forMatchingSignature [] logging example_table []) =
      Inr [(0, []), (2, []), (3, [])]"
    by code_simp
  ultimately show ?thesis
    using inv by (simp add: log)
qed




text \<open>
  The bitset the slot held is not always empty: when \<^verbatim>\<open>cleanup\<close> finds every record dead it
  returns from its inner loop at \<open>rhs = 0\<close> before resetting the bitset of record 0, and the
  next \<^verbatim>\<open>addEntity\<close> revives that record with the tag it had.
\<close>

lemma addEntity_stale_bitset:
  "fst (addEntity (\<lambda>_. 0 :: nat)
     (run (\<lambda>_. 0) [AddEntity, AddEntity, AddTag 0 0, DeleteEntity 0, DeleteEntity 1, Cleanup]
        (Manager 1 (\<lambda>_. 0) :: (nat, unit) Manager))) = 0 \<and>
   hasTag 0 (snd (addEntity (\<lambda>_. 0 :: nat)
     (run (\<lambda>_. 0) [AddEntity, AddEntity, AddTag 0 0, DeleteEntity 0, DeleteEntity 1, Cleanup]
        (Manager 1 (\<lambda>_. 0) :: (nat, unit) Manager)))) 0 = Inr True"
  by code_simp

text \<open>
  C4. In every state reachable from a fresh manager by \<^verbatim>\<open>addEntity\<close>, \<^verbatim>\<open>deleteEntity\<close>,
  \<^verbatim>\<open>addComponent\<close>, \<^verbatim>\<open>removeComponent\<close>, \<^verbatim>\<open>addTag\<close>, \<^verbatim>\<open>removeTag\<close> and \<^verbatim>\<open>cleanup\<close>, two
  different live entities have different data indices, and the data index of a live entity
  is below \<^verbatim>\<open>currentCapacity\<close>.
\<close>

theorem live_dataIndex_distinct_bounded:
  assumes "reachable dflt m"
  shows "(\<forall>i j. isAlive m i = Inr True \<and> isAlive m j = Inr True \<and> i \<noteq> j \<longrightarrow>
            dataIndex (entities m ! i) \<noteq> dataIndex (entities m ! j)) \<and>
         (\<forall>i. isAlive m i = Inr True \<longrightarrow> dataIndex (entities m ! i) < currentCapacity m)"
proof -
  from assms have inv: "manager_inv m" by (rule reachable_inv)
  have live: "i < length (entities m)" if "isAlive m i = Inr True" for i
    using that by (auto simp: isAlive_def split: if_splits)
  have "dataIndex (entities m ! i) \<noteq> dataIndex (entities m ! j)"
    if "isAlive m i = Inr True" "isAlive m j = Inr True" "i \<noteq> j" for i j
  proof -
    from inv have "distinct (map dataIndex (entities m))" by (simp add: manager_inv_iff)
    with live [OF that(1)] live [OF that(2)] that(3) show ?thesis
      using nth_eq_iff_index_eq [of "map dataIndex (entities m)" i j] by simp
  qed
  moreover have "dataIndex (entities m ! i) < currentCapacity m" if "isAlive m i = Inr True" for i
    using inv live [OF that] by (simp add: manager_inv_iff)
  ultimately show ?thesis by blast
qed

theorem live_dataIndex_distinct_bounded_witness:
  "reachable (\<lambda>_. 0 :: nat)
     (run (\<lambda>_. 0) [AddEntity, AddEntity] (Manager 1 (\<lambda>_. 0) :: (nat, unit) Manager)) \<and>
   isAlive (run (\<lambda>_. 0 :: nat) [AddEntity, AddEntity]
      (Manager 1 (\<lambda>_. 0) :: (nat, unit) Manager)) 0 = Inr True \<and>
   isAlive (run (\<lambda>_. 0 :: nat) [AddEntity, AddEntity]
      (Manager 1 (\<lambda>_. 0) :: (nat, unit) Manager)) 1 = Inr True \<and>
   dataIndex (entities (run (\<lambda>_. 0 :: nat) [AddEntity, AddEntity]
      (Manager 1 (\<lambda>_. 0) :: (nat, unit) Manager)) ! 0) \<noteq>
   dataIndex (entities (run (\<lambda>_. 0 :: nat) [AddEntity, AddEntity]
      (Manager 1 (\<lambda>_. 0) :: (nat, unit) Manager)) ! 1) \<and>
   dataIndex (entities (run (\<lambda>_. 0 :: nat) [AddEntity, AddEntity]
      (Manager 1 (\<lambda>_. 0) :: (nat, unit) Manager)) ! 0) <
   currentCapacity (run (\<lambda>_. 0 :: nat) [AddEntity, AddEntity]
      (Manager 1 (\<lambda>_. 0) :: (nat, unit) Manager))"
proof -
  let ?m = "run (\<lambda>_. 0 :: nat) [AddEntity, AddEntity]
      (Manager 1 (\<lambda>_. 0) :: (nat, unit) Manager)"
  have r: "reachable (\<lambda>_. 0) ?m"
    by (rule reachable_run [OF reachable_init])
  have a: "isAlive ?m 0 = Inr True" by code_simp
  have b: "isAlive ?m 1 = Inr True" by code_simp
  from live_dataIndex_distinct_bounded [OF r] a b
  have "dataIndex (entities ?m ! 0) \<noteq> dataIndex (entities ?m ! 1)"
    "dataIndex (entities ?m ! 0) < currentCapacity ?m"
    by auto
  with r a b show ?thesis by simp
qed

text \<open>
  C5, as the code has it. On a manager that satisfies the class invariant (every manager the
  constructor and the member functions produce, with or without stored closures), for an id
  whose entity does not exist or is dead, \<^verbatim>\<open>addComponent\<close>, \<^verbatim>\<open>removeComponent\<close>, \<^verbatim>\<open>addTag\<close> and
  \<^verbatim>\<open>removeTag\<close> return without an error and leave the manager as it was. \<^verbatim>\<open>deleteEntity\<close> does
  so for an id below \<^verbatim>\<open>currentCapacity\<close>; for an id at or beyond \<^verbatim>\<open>currentCapacity\<close> its
  \<^verbatim>\<open>entities.at(index)\<close> throws \<^verbatim>\<open>std::out_of_range\<close>.
\<close>

theorem invalid_entity_ignored:
  assumes "manager_inv m" "isAlive m i \<noteq> Inr True"
  shows "addComponent c i v m = Inr m \<and> removeComponent c i m = Inr m \<and>
         addTag t i m = Inr m \<and> removeTag t i m = Inr m \<and>
         deleteEntity i m = (if i < currentCapacity m then Inr m else Inl OutOfRange)"
  using mutators_noop [OF assms] deleteEntity_dead [OF assms]
  by simp

theorem invalid_entity_ignored_witness:
  "manager_inv example_registered \<and>
   forMatchingFunctions example_registered \<noteq> [] \<and>
   hasEntity example_registered 1 \<and>
   isAlive example_registered 1 \<noteq> Inr True \<and>
   addComponent 0 1 5 example_registered = Inr example_registered \<and>
   removeComponent 0 1 example_registered = Inr example_registered \<and>
   addTag 0 1 example_registered = Inr example_registered \<and>
   removeTag 0 1 example_registered = Inr example_registered \<and>
   deleteEntity 1 example_registered = Inr example_registered \<and>
   isAlive example_registered 300 \<noteq> Inr True \<and>
   addTag 0 300 example_registered = Inr example_registered \<and>
   deleteEntity 300 example_registered = Inl OutOfRange"
proof -
  note inv = manager_inv_example_registered
  have e: "hasEntity example_registered 1" by code_simp
  have a: "isAlive example_registered 1 \<noteq> Inr True" by code_simp
  have b: "isAlive example_registered 300 \<noteq> Inr True" by code_simp
  have c: "currentCapacity example_registered = 256" by code_simp
  from invalid_entity_ignored [OF inv a, of 0 5 0] invalid_entity_ignored [OF inv b, of 0 5 0]
    inv example_registered_closures e a b c
  show ?thesis by simp
qed

text \<open>
  C5 as stated fails for \<^verbatim>\<open>deleteEntity\<close>: on a fresh manager no entity 256 exists, and
  \<^verbatim>\<open>deleteEntity(256)\<close> throws.
\<close>

theorem deleteEntity_beyond_capacity_throws:
  "reachable (\<lambda>_. 0 :: nat) (Manager 1 (\<lambda>_. 0) :: (nat, unit) Manager) \<and>
   \<not> hasEntity (Manager 1 (\<lambda>_. 0 :: nat) :: (nat, unit) Manager) 256 \<and>
   deleteEntity 256 (Manager 1 (\<lambda>_. 0 :: nat) :: (nat, unit) Manager) = Inl OutOfRange"
  by (simp add: reachable_init hasEntity_def deleteEntity_def Manager_fields
      EC_INIT_ENTITIES_SIZE_def)

text \<open>
  C6, as the code has it. \<^verbatim>\<open>hasComponent\<close> and \<^verbatim>\<open>hasTag\<close> read through \<^verbatim>\<open>entities.at(index)\<close>,
  which is checked against the size of the table, \<^verbatim>\<open>currentCapacity\<close>, not against
  \<^verbatim>\<open>currentSize\<close>: on a manager that satisfies the class invariant (every manager the
  constructor and the member functions produce, with or without stored closures) the read
  throws exactly when the id is at or beyond \<^verbatim>\<open>currentCapacity\<close>, and returns the bit stored in
  the record otherwise.
\<close>

theorem has_reads_checked_against_capacity:
  assumes "manager_inv m"
  shows "hasComponent c m i =
           (if i < currentCapacity m then Inr (getComponentBit (bitset (entities m ! i)) c)
            else Inl OutOfRange) \<and>
         hasTag t m i =
           (if i < currentCapacity m
            then Inr (getTagBit (length (componentsStorage m)) (bitset (entities m ! i)) t)
            else Inl OutOfRange)"
  using assms
  by (simp add: hasComponent_def hasTag_def manager_inv_iff)

theorem has_reads_checked_against_capacity_witness:
  "manager_inv example_registered \<and>
   forMatchingFunctions example_registered \<noteq> [] \<and>
   hasComponent 0 example_registered 256 = Inl OutOfRange \<and>
   hasTag 0 example_registered 256 = Inl OutOfRange \<and>
   \<not> hasEntity example_registered 4 \<and>
   hasComponent 0 example_registered 4 = Inr False \<and>
   hasTag 0 example_registered 4 = Inr False \<and>
   hasComponent 0 example_registered 2 = Inr True \<and>
   hasTag 0 example_registered 2 = Inr True"
proof -
  note inv = manager_inv_example_registered
  have c: "currentCapacity example_registered = 256" by code_simp
  have e: "\<not> hasEntity example_registered 4" by code_simp
  have c4: "\<not> getComponentBit (bitset (entities example_registered ! 4)) 0" by code_simp
  have t4: "\<not> getTagBit (length (componentsStorage example_registered))
      (bitset (entities example_registered ! 4)) 0" by code_simp
  have c2: "getComponentBit (bitset (entities example_registered ! 2)) 0" by code_simp
  have t2: "getTagBit (length (componentsStorage example_registered))
      (bitset (entities example_registered ! 2)) 0" by code_simp
  from has_reads_checked_against_capacity [OF inv, of 0 256 0]
    has_reads_checked_against_capacity [OF inv, of 0 4 0]
    has_reads_checked_against_capacity [OF inv, of 0 2 0]
    inv example_registered_closures c e c4 t4 c2 t2
  show ?thesis by simp
qed

text \<open>
  C6 as stated fails: on a fresh manager entity 0 does not exist, and both reads return
  \<open>false\<close>.
\<close>

theorem has_reads_return_for_missing_entity:
  "reachable (\<lambda>_. 0 :: nat) (Manager 1 (\<lambda>_. 0) :: (nat, unit) Manager) \<and>
   \<not> hasEntity (Manager 1 (\<lambda>_. 0 :: nat) :: (nat, unit) Manager) 0 \<and>
   hasComponent 0 (Manager 1 (\<lambda>_. 0 :: nat) :: (nat, unit) Manager) 0 = Inr False \<and>
   hasTag 0 (Manager 1 (\<lambda>_. 0 :: nat) :: (nat, unit) Manager) 0 = Inr False"
proof -
  have "\<not> hasEntity (Manager 1 (\<lambda>_. 0 :: nat) :: (nat, unit) Manager) 0"
    by (simp add: hasEntity_def Manager_fields)
  moreover have "hasComponent 0 (Manager 1 (\<lambda>_. 0 :: nat) :: (nat, unit) Manager) 0 = Inr False"
    by code_simp
  moreover have "hasTag 0 (Manager 1 (\<lambda>_. 0 :: nat) :: (nat, unit) Manager) 0 = Inr False"
    by code_simp
  ultimately show ?thesis by (simp add: reachable_init)
qed

text \<open>
  C7. For a live entity, \<^verbatim>\<open>removeComponent<K>\<close> returns normally; the component vectors,
  \<^verbatim>\<open>currentSize\<close>, \<^verbatim>\<open>currentCapacity\<close> and the stored closures are as before, every other
  record is as before, the entity's alive flag and data index are as before, its bit for
  \<open>K\<close> is clear and every other bit of its bitset is as before.
\<close>

theorem removeComponent_clears_one_bit:
  assumes "isAlive m i = Inr True"
  shows "\<exists>m'. removeComponent c i m = Inr m' \<and>
           componentsStorage m' = componentsStorage m \<and>
           currentSize m' = currentSize m \<and>
           currentCapacity m' = currentCapacity m \<and>
           forMatchingFunctions m' = forMatchingFunctions m \<and>
           length (entities m') = length (entities m) \<and>
           (\<forall>j. j \<noteq> i \<longrightarrow> entities m' ! j = entities m ! j) \<and>
           alive (entities m' ! i) = alive (entities m ! i) \<and>
           dataIndex (entities m' ! i) = dataIndex (entities m ! i) \<and>
           \<not> getComponentBit (bitset (entities m' ! i)) c \<and>
           (\<forall>n. n \<noteq> componentBitIndex c \<longrightarrow>
              bit (bitset (entities m' ! i)) n = bit (bitset (entities m ! i)) n)"
proof -
  from assms have i: "i < currentSize m" "i < length (entities m)"
    by (auto simp: isAlive_def hasEntity_def split: if_splits)
  let ?m' = "m\<lparr>entities := (entities m)[i := (entities m ! i)
                \<lparr>bitset := assignBit (componentBitIndex c) False (bitset (entities m ! i))\<rparr>]\<rparr>"
  have "removeComponent c i m = Inr ?m'"
    using assms i by (simp add: removeComponent_def hasEntity_def)
  moreover have "\<not> getComponentBit (bitset (entities ?m' ! i)) c"
    using i by (simp add: getComponentBit_def assignBit_def bit_unset_bit_iff)
  moreover have "\<forall>n. n \<noteq> componentBitIndex c \<longrightarrow>
      bit (bitset (entities ?m' ! i)) n = bit (bitset (entities m ! i)) n"
    using i by (auto simp: assignBit_def bit_unset_bit_iff)
  ultimately show ?thesis
    using i by (intro exI [of _ ?m']) simp
qed

theorem removeComponent_clears_one_bit_witness:
  "isAlive (run (\<lambda>_. 0 :: nat) [AddEntity, AddComponent 0 0 7]
       (Manager 1 (\<lambda>_. 0) :: (nat, unit) Manager)) 0 = Inr True \<and>
   hasComponent 0 (run (\<lambda>_. 0 :: nat) [AddEntity, AddComponent 0 0 7]
       (Manager 1 (\<lambda>_. 0) :: (nat, unit) Manager)) 0 = Inr True \<and>
   (\<exists>m'. removeComponent 0 0 (run (\<lambda>_. 0 :: nat) [AddEntity, AddComponent 0 0 7]
            (Manager 1 (\<lambda>_. 0) :: (nat, unit) Manager)) = Inr m' \<and>
      componentsStorage m' = componentsStorage (run (\<lambda>_. 0 :: nat) [AddEntity, AddComponent 0 0 7]
            (Manager 1 (\<lambda>_. 0) :: (nat, unit) Manager)) \<and>
      currentSize m' = currentSize (run (\<lambda>_. 0 :: nat) [AddEntity, AddComponent 0 0 7]
            (Manager 1 (\<lambda>_. 0) :: (nat, unit) Manager)) \<and>
      alive (entities m' ! 0) \<and>
      \<not> getComponentBit (bitset (entities m' ! 0)) 0)"
proof -
  let ?m = "run (\<lambda>_. 0 :: nat) [AddEntity, AddComponent 0 0 7]
       (Manager 1 (\<lambda>_. 0) :: (nat, unit) Manager)"
  have a: "isAlive ?m 0 = Inr True" by code_simp
  have b: "hasComponent 0 ?m 0 = Inr True" by code_simp
  have c: "alive (entities ?m ! 0)" by code_simp
  from removeComponent_clears_one_bit [OF a, of 0] obtain m' where
    "removeComponent 0 0 ?m = Inr m'" "componentsStorage m' = componentsStorage ?m"
    "currentSize m' = currentSize ?m" "alive (entities m' ! 0) = alive (entities ?m ! 0)"
    "\<not> getComponentBit (bitset (entities m' ! 0)) 0"
    by blast
  with a b c show ?thesis by blast
qed

text \<open>
  C8. \<^verbatim>\<open>cleanup\<close> should be idempotent. On the state of C1 (three entities, 0 and 1 deleted)
  the first \<^verbatim>\<open>cleanup\<close> leaves \<^verbatim>\<open>currentSize = 2\<close> with the dead record 1 below it, and a
  second \<^verbatim>\<open>cleanup\<close> removes that record: \<^verbatim>\<open>currentSize\<close> becomes 1.
\<close>

theorem cleanup_twice_differs:
  "(let m = run (\<lambda>_. 0 :: nat)
              [AddEntity, AddEntity, AddEntity, DeleteEntity 0, DeleteEntity 1]
              (Manager 1 (\<lambda>_. 0) :: (nat, unit) Manager)
    in currentSize (cleanup m) = 2 \<and> currentSize (cleanup (cleanup m)) = 1)"
  by code_simp

text \<open>
  C9, as the code has it. On a manager that satisfies the class invariant (every manager the
  constructor and the member functions produce, with or without stored closures) and for a
  declared component kind \<open>K\<close>: when the entity is alive, \<^verbatim>\<open>addComponent<K>(id, args)\<close> returns
  normally, afterwards \<^verbatim>\<open>getEntityData<K>(id)\<close> returns a reference behind which the value
  constructed from the arguments is found, and \<^verbatim>\<open>hasComponent<K>(id)\<close> is true; when the entity
  does not exist or is dead, \<^verbatim>\<open>addComponent<K>(id, args)\<close> returns normally and leaves the
  manager as it was.
\<close>

theorem addComponent_round_trip:
  assumes "manager_inv m" "c < length (componentsStorage m)"
  shows "if isAlive m i = Inr True
         then \<exists>m' r. addComponent c i v m = Inr m' \<and> getEntityData c m' i = Inr r \<and>
                 deref m' r = v \<and> hasComponent c m' i = Inr True
         else addComponent c i v m = Inr m"
proof (cases "isAlive m i = Inr True")
  case False
  with mutators_noop(1) [OF assms(1) False] show ?thesis by simp
next
  case True
  note inv = assms(1)
  from True have i: "i < currentSize m" "i < length (entities m)" "alive (entities m ! i)"
    by (auto simp: isAlive_def hasEntity_def split: if_splits)
  define e where "e = (entities m ! i)\<lparr>bitset := assignBit (componentBitIndex c) True
                                 (bitset (entities m ! i))\<rparr>"
  define d where "d = dataIndex (entities m ! i)"
  define m' where "m' = m\<lparr>entities := (entities m)[i := e],
      componentsStorage := assign (c, d) v (componentsStorage m)\<rparr>"
  have d: "d < length (componentsStorage m ! c)"
    using inv i assms(2) by (simp add: manager_inv_iff d_def)
  have add: "addComponent c i v m = Inr m'"
    using True i by (simp add: addComponent_def hasEntity_def Let_def m'_def e_def d_def)
  have get: "getEntityData c m' i = Inr (c, d)"
    using i d assms(2) by (simp add: getEntityData_def m'_def e_def d_def assign_def)
  have val: "deref m' (c, d) = v"
    using d assms(2) by (simp add: deref_def m'_def assign_def)
  have has: "hasComponent c m' i = Inr True"
    using i by (simp add: hasComponent_def m'_def e_def getComponentBit_def assignBit_def
        bit_set_bit_iff)
  from add get val has have "\<exists>m' r. addComponent c i v m = Inr m' \<and>
      getEntityData c m' i = Inr r \<and> deref m' r = v \<and> hasComponent c m' i = Inr True"
    by blast
  with True show ?thesis by simp
qed

theorem addComponent_round_trip_witness:
  "manager_inv example_registered \<and>
   forMatchingFunctions example_registered \<noteq> [] \<and>
   isAlive example_registered 3 = Inr True \<and>
   hasComponent 0 example_registered 3 = Inr False \<and>
   (\<exists>m' r. addComponent 0 3 7 example_registered = Inr m' \<and>
      getEntityData 0 m' 3 = Inr r \<and> deref m' r = 7 \<and> hasComponent 0 m' 3 = Inr True) \<and>
   isAlive example_registered 1 \<noteq> Inr True \<and>
   addComponent 0 1 7 example_registered = Inr example_registered \<and>
   isAlive example_registered 4 \<noteq> Inr True \<and>
   addComponent 0 4 7 example_registered = Inr example_registered"
proof -
  note inv = manager_inv_example_registered
  have c: "0 < length (componentsStorage example_registered)" by code_simp
  have a3: "isAlive example_registered 3 = Inr True" by code_simp
  have h3: "hasComponent 0 example_registered 3 = Inr False" by code_simp
  have a1: "isAlive example_registered 1 \<noteq> Inr True" by code_simp
  have a4: "isAlive example_registered 4 \<noteq> Inr True" by code_simp
  from addComponent_round_trip [OF inv c, of 3 7] addComponent_round_trip [OF inv c, of 1 7]
    addComponent_round_trip [OF inv c, of 4 7] inv example_registered_closures a3 h3 a1 a4
  show ?thesis by simp
qed

text \<open>
  C9 as stated fails for an entity that is marked as deleted: \<^verbatim>\<open>addComponent\<close> returns at its
  guard, the bit stays clear and the storage keeps the default value.
\<close>

theorem addComponent_on_dead_entity_no_round_trip:
  "reachable (\<lambda>_. 0 :: nat)
     (run (\<lambda>_. 0) [AddEntity, DeleteEntity 0] (Manager 1 (\<lambda>_. 0) :: (nat, unit) Manager)) \<and>
   hasEntity (run (\<lambda>_. 0 :: nat) [AddEntity, DeleteEntity 0]
     (Manager 1 (\<lambda>_. 0) :: (nat, unit) Manager)) 0 \<and>
   (\<exists>m' r. addComponent 0 0 7 (run (\<lambda>_. 0 :: nat) [AddEntity, DeleteEntity 0]
               (Manager 1 (\<lambda>_. 0) :: (nat, unit) Manager)) = Inr m' \<and>
      getEntityData 0 m' 0 = Inr r \<and> deref m' r = 0 \<and> hasComponent 0 m' 0 = Inr False)"
proof -
  let ?m = "run (\<lambda>_. 0 :: nat) [AddEntity, DeleteEntity 0]
     (Manager 1 (\<lambda>_. 0) :: (nat, unit) Manager)"
  have r: "reachable (\<lambda>_. 0) ?m"
    by (rule reachable_run [OF reachable_init])
  have e: "hasEntity ?m 0" by code_simp
  have a: "isAlive ?m 0 \<noteq> Inr True" by code_simp
  have add: "addComponent 0 0 7 ?m = Inr ?m"
    by (rule mutators_noop(1) [OF reachable_inv [OF r] a])
  have get: "getEntityData 0 ?m 0 = Inr (0, 0)" by code_simp
  have val: "deref ?m (0, 0) = 0" by code_simp
  have has: "hasComponent 0 ?m 0 = Inr False" by code_simp
  from r e add get val has show ?thesis by blast
qed

text \<open>
  C10. \<open>m\<close> is the manager at the time of registration and \<open>m'\<close> any manager with the same
  component kinds, such as the same manager at any later time. The lambda that
  \<^verbatim>\<open>addForMatchingFunction\<close> stores for a signature and a handler does on \<open>m'\<close> what a direct
  \<^verbatim>\<open>forMatchingSignature\<close> with that signature and handler does on \<open>m'\<close>, and so does each of
  the closures stored by a sequence of registrations. When the closures of \<open>m'\<close> are those
  registered by that sequence after \<^verbatim>\<open>clearForMatchingFunctions\<close>, \<^verbatim>\<open>callForMatchingFunctions\<close> on
  \<open>m'\<close> does what the direct calls with the registered signatures and handlers do, one after
  the other in the order of registration, each on the manager as the one before left it;
  and it leaves the component kinds and the stored closures as they are, so that the same
  holds of the next call. In particular this is so after any table operations that follow
  the registrations.
\<close>

theorem callForMatchingFunctions_as_direct_calls:
  "(length (componentsStorage m') = length (componentsStorage m) \<longrightarrow>
      storedLoop (last (forMatchingFunctions (addForMatchingFunction sig f m))) 0 m' s =
        forMatchingSignature sig f m' s \<and>
      (\<forall>k < length regs.
         storedLoop
           (forMatchingFunctions (addForMatchingFunctions regs (clearForMatchingFunctions m)) ! k)
           0 m' s =
         forMatchingSignature (fst (regs ! k)) (snd (regs ! k)) m' s)) \<and>
   (length (componentsStorage m') = length (componentsStorage m) \<and>
    forMatchingFunctions m' =
      forMatchingFunctions (addForMatchingFunctions regs (clearForMatchingFunctions m)) \<longrightarrow>
      callForMatchingFunctions m' s = forMatchingSignatureEach regs m' s \<and>
      (\<forall>m'' s''. callForMatchingFunctions m' s = Inr (m'', s'') \<longrightarrow>
         length (componentsStorage m'') = length (componentsStorage m') \<and>
         forMatchingFunctions m'' = forMatchingFunctions m')) \<and>
   callForMatchingFunctions
     (run dflt ops (addForMatchingFunctions regs (clearForMatchingFunctions m))) s =
   forMatchingSignatureEach regs
     (run dflt ops (addForMatchingFunctions regs (clearForMatchingFunctions m))) s"
proof -
  let ?m0 = "addForMatchingFunctions regs (clearForMatchingFunctions m)"
  have one: "storedLoop (last (forMatchingFunctions (addForMatchingFunction sig f m))) 0 m' s =
      forMatchingSignature sig f m' s"
    if "length (componentsStorage m') = length (componentsStorage m)"
    using that by (simp add: addForMatchingFunction_def storedLoop_eq forMatchingSignature_def)
  have each: "\<forall>k < length regs. storedLoop (forMatchingFunctions ?m0 ! k) 0 m' s =
      forMatchingSignature (fst (regs ! k)) (snd (regs ! k)) m' s"
    if "length (componentsStorage m') = length (componentsStorage m)"
    using that by (simp add: nth_forMatchingFunctions_add storedLoop_eq forMatchingSignature_def)
  have all: "callForMatchingFunctions m' s = forMatchingSignatureEach regs m' s"
    if "length (componentsStorage m') = length (componentsStorage m)"
      "forMatchingFunctions m' = forMatchingFunctions ?m0"
    by (rule callForMatchingFunctions_registered [OF that])
  have again: "\<forall>m'' s''. callForMatchingFunctions m' s = Inr (m'', s'') \<longrightarrow>
      length (componentsStorage m'') = length (componentsStorage m') \<and>
      forMatchingFunctions m'' = forMatchingFunctions m'"
    unfolding callForMatchingFunctions_def by (auto dest: callEach_frame)
  have st: "length (componentsStorage (run dflt ops ?m0)) = length (componentsStorage m)"
    by (simp add: run_frame forMatchingFunctions_add) (simp add: clearForMatchingFunctions_def)
  have fm: "forMatchingFunctions (run dflt ops ?m0) = forMatchingFunctions ?m0"
    by (simp add: run_frame)
  have later: "callForMatchingFunctions (run dflt ops ?m0) s =
      forMatchingSignatureEach regs (run dflt ops ?m0) s"
    by (rule callForMatchingFunctions_registered [OF st fm])
  from one each all again later show ?thesis by blast
qed

theorem callForMatchingFunctions_as_direct_calls_witness:
  "(\<exists>m'. callForMatchingFunctions example_registry [] = Inr (m', [])) \<and>
   (\<exists>m'. callForMatchingFunctions example_later [] = Inr (m', [(0, [4]), (0, [5])]))"
proof -
  let ?regs = "[([Component 0], bumping), ([Component 0], logging)]"
  let ?m0 = "Manager 1 (\<lambda>_. 0 :: nat) :: (nat, (nat \<times> nat list) list) Manager"
  have log: "\<exists>m'. callForMatchingFunctions m [] = Inr (m', l)"
    if "callForMatchingFunctions m [] = forMatchingSignatureEach ?regs m []"
      "map_sum id snd (forMatchingSignatureEach ?regs m []) = Inr l" for m l
  proof -
    from that(2) obtain R where R: "forMatchingSignatureEach ?regs m [] = Inr R"
      by (cases "forMatchingSignatureEach ?regs m []") simp_all
    with that(2) have "snd R = l" by simp
    with R that(1) have "callForMatchingFunctions m [] = Inr (fst R, l)"
      by (cases R) simp
    then show ?thesis by blast
  qed
  have e0: "callForMatchingFunctions example_registry [] =
      forMatchingSignatureEach ?regs example_registry []"
    using callForMatchingFunctions_as_direct_calls
      [where m = ?m0 and regs = ?regs and dflt = "\<lambda>_. 0" and ops = "[]" and s = "[]",
       THEN conjunct2, THEN conjunct2]
    by (simp only: example_registry_def run_Nil)
  have e1: "callForMatchingFunctions example_later [] =
      forMatchingSignatureEach ?regs example_later []"
    using callForMatchingFunctions_as_direct_calls
      [where m = ?m0 and regs = ?regs and dflt = "\<lambda>_. 0"
         and ops = "[AddEntity, AddComponent 0 0 4]" and s = "[]",
       THEN conjunct2, THEN conjunct2]
    by (simp only: example_later_def example_registry_def)
  have v0: "map_sum id snd (forMatchingSignatureEach ?regs example_registry []) = Inr []"
    by code_simp
  have v1: "map_sum id snd (forMatchingSignatureEach ?regs example_later []) =
      Inr [(0, [4]), (0, [5])]"
    by code_simp
  from log [OF e0 v0] log [OF e1 v1] show ?thesis by simp
qed

end
